theory Spec2Isabelle
  imports Main "HOL-Library.Word" "HOL-Library.Sublist"
begin

section \<open>Tokenizer\<close>

text \<open>C \<open>long\<close> on the x86-64 target the generated assembly is written for: 64 bits,
  two's complement. C \<open>int\<close>: 32 bits.\<close>

type_synonym long = "64 word"
type_synonym cint = "32 word"

datatype TokenKind = TK_RESERVED | TK_NUM | TK_EOF

text \<open>\<open>struct Token\<close>. The \<open>next\<close> pointer is the tail of the list the token sits in.
  The \<open>char*\<close> \<open>str\<close> points into \<open>user_input\<close>; it is modelled as the part of
  \<open>user_input\<close> that starts at the pointer (the bytes before the terminating NUL).\<close>

record Token =
  kind :: TokenKind
  val :: long
  str :: string

text \<open>What \<open>error_at\<close> is called with: the location pointer and the formatted message.
  \<open>Null_deref\<close> is the read of \<open>token->kind\<close> through a NULL \<open>token\<close>.\<close>

datatype error = Error_at string string | Null_deref

text \<open>\<open>ctype.h\<close> in the "C" locale (the program never calls \<open>setlocale\<close>): white space
  is the space and the five control characters from tab to carriage return, punctuation
  the printable ASCII characters that are neither alphanumeric nor the space; a byte
  above 127 is in no class.\<close>

definition isspace :: "char \<Rightarrow> bool" where
  "isspace c = (let n = (of_char c :: nat) in n = 32 \<or> (9 \<le> n \<and> n \<le> 13))"

definition ispunct :: "char \<Rightarrow> bool" where
  "ispunct c = (let n = (of_char c :: nat) in
     (33 \<le> n \<and> n \<le> 47) \<or> (58 \<le> n \<and> n \<le> 64) \<or> (91 \<le> n \<and> n \<le> 96) \<or> (123 \<le> n \<and> n \<le> 126))"

definition isdigit :: "char \<Rightarrow> bool" where
  "isdigit c = (let n = (of_char c :: nat) in 48 \<le> n \<and> n \<le> 57)"

definition LONG_MAX :: int where
  "LONG_MAX = 2 ^ 63 - 1"

text \<open>The decimal value of a digit string, most significant digit first.\<close>

definition decimal :: "string \<Rightarrow> int" where
  "decimal ds = foldl (\<lambda>acc c. acc * 10 + (int (of_char c) - 48)) 0 ds"

text \<open>\<open>strtol(p, &p, 10)\<close> at a \<open>p\<close> whose first character is a digit (the only call):
  no white space or sign to skip, the digits are converted, a value above \<open>LONG_MAX\<close>
  is returned as \<open>LONG_MAX\<close>, and the end pointer is the first character that is not a
  digit.\<close>

definition strtol :: "string \<Rightarrow> long \<times> string" where
  "strtol p = (let v = decimal (takeWhile isdigit p) in
     (word_of_int (if LONG_MAX < v then LONG_MAX else v), dropWhile isdigit p))"

definition new_token :: "TokenKind \<Rightarrow> string \<Rightarrow> Token" where
  "new_token k s = \<lparr>kind = k, val = 0, str = s\<rparr>"

lemma strtol_shorter:
  "isdigit c \<Longrightarrow> strtol (c # cs) = (v, p') \<Longrightarrow> length p' \<le> length cs"
  by (auto simp: strtol_def Let_def intro: length_dropWhile_le)

text \<open>\<open>tokenize\<close>: the loop over \<open>p\<close>; \<open>user_input\<close> is the list of the bytes before
  the terminating NUL, so \<open>*p\<close> is false exactly at the empty rest. Appending to
  \<open>cur\<close> is consing onto the tokens of the rest.\<close>

function tokenize :: "string \<Rightarrow> error + Token list" where
  "tokenize [] = Inr [new_token TK_EOF []]"
| "tokenize (c # cs) =
     (if isspace c then tokenize cs
      else if ispunct c then
        (case tokenize cs of Inl e \<Rightarrow> Inl e
         | Inr ts \<Rightarrow> Inr (new_token TK_RESERVED (c # cs) # ts))
      else if isdigit c then
        (case strtol (c # cs) of (v, p') \<Rightarrow>
          (case tokenize p' of Inl e \<Rightarrow> Inl e
           | Inr ts \<Rightarrow> Inr ((new_token TK_NUM (c # cs))\<lparr>val := v\<rparr> # ts)))
      else Inl (Error_at (c # cs) ''invalid token''))"
  by pat_completeness auto
termination
  apply (relation "measure length")
     apply simp_all
  apply (metis strtol_shorter le_imp_less_Suc)
  done

section \<open>Parser\<close>

text \<open>\<open>token->str[0]\<close>: the byte at the pointer, the terminating NUL at the end of
  \<open>user_input\<close>.\<close>

definition str0 :: "Token \<Rightarrow> char" where
  "str0 t = (case str t of [] \<Rightarrow> CHR 0x00 | c # _ \<Rightarrow> c)"

text \<open>The global \<open>token\<close> is the list of the tokens from the current one on; \<open>[]\<close> is
  the NULL that \<open>next\<close> of the \<open>TK_EOF\<close> token holds. Each function takes the cursor and
  returns it with its result; \<open>exit\<close> in \<open>error_at\<close> is the \<open>Inl\<close> result.\<close>

fun consume :: "char \<Rightarrow> Token list \<Rightarrow> error + (bool \<times> Token list)" where
  "consume op [] = Inl Null_deref"
| "consume op (t # nxt) =
     (if kind t \<noteq> TK_RESERVED \<or> str0 t \<noteq> op then Inr (False, t # nxt)
      else Inr (True, nxt))"

fun expect :: "char \<Rightarrow> Token list \<Rightarrow> error + Token list" where
  "expect op [] = Inl Null_deref"
| "expect op (t # nxt) =
     (if kind t \<noteq> TK_RESERVED \<or> str0 t \<noteq> op
      then Inl (Error_at (str t) (''expected: '' @ [CHR 0x27, op, CHR 0x27]))
      else Inr nxt)"

fun expect_number :: "Token list \<Rightarrow> error + (long \<times> Token list)" where
  "expect_number [] = Inl Null_deref"
| "expect_number (t # nxt) =
     (if kind t \<noteq> TK_NUM then Inl (Error_at (str t) ''expected a number'')
      else Inr (val t, nxt))"

fun at_eof :: "Token list \<Rightarrow> error + bool" where
  "at_eof [] = Inl Null_deref"
| "at_eof (t # nxt) = Inr (kind t = TK_EOF)"

text \<open>\<open>NodeKind\<close> and \<open>struct Node\<close>: a node of kind \<open>ND_NUM\<close> has its \<open>val\<close> and no
  children, a node built by \<open>new_binary\<close> has one of the four operator kinds and both
  children.\<close>

datatype NodeKind = ND_ADD | ND_SUB | ND_MUL | ND_DIV

datatype Node = ND_NUM long | Binary NodeKind Node Node

definition new_binary :: "NodeKind \<Rightarrow> Node \<Rightarrow> Node \<Rightarrow> Node" where
  "new_binary k lhs rhs = Binary k lhs rhs"

text \<open>\<open>new_num(int val)\<close>: the \<open>long\<close> argument is converted to the \<open>int\<close> parameter
  (its low 32 bits), and \<open>node->val = val\<close> widens it back with its sign.\<close>

definition new_num :: "long \<Rightarrow> Node" where
  "new_num v = ND_NUM (scast (ucast v :: cint))"

text \<open>The three grammar functions; \<open>expr_loop\<close> and \<open>mul_loop\<close> are the \<open>for (;;)\<close>
  loops of \<open>expr\<close> and \<open>mul\<close>, with \<open>node\<close> as the loop variable.\<close>

function expr :: "Token list \<Rightarrow> error + (Node \<times> Token list)"
  and expr_loop :: "Node \<Rightarrow> Token list \<Rightarrow> error + (Node \<times> Token list)"
  and mul :: "Token list \<Rightarrow> error + (Node \<times> Token list)"
  and mul_loop :: "Node \<Rightarrow> Token list \<Rightarrow> error + (Node \<times> Token list)"
  and primary :: "Token list \<Rightarrow> error + (Node \<times> Token list)"
where
  "expr ts =
     (case mul ts of Inl e \<Rightarrow> Inl e
      | Inr (node, ts1) \<Rightarrow> expr_loop node ts1)"
| "expr_loop node ts =
     (case consume CHR ''+'' ts of Inl e \<Rightarrow> Inl e
      | Inr (b, ts1) \<Rightarrow>
          if b then
            (case mul ts1 of Inl e \<Rightarrow> Inl e
             | Inr (rhs, ts2) \<Rightarrow> expr_loop (new_binary ND_ADD node rhs) ts2)
          else
            (case consume CHR ''-'' ts1 of Inl e \<Rightarrow> Inl e
             | Inr (b', ts2) \<Rightarrow>
                 if b' then
                   (case mul ts2 of Inl e \<Rightarrow> Inl e
                    | Inr (rhs, ts3) \<Rightarrow> expr_loop (new_binary ND_SUB node rhs) ts3)
                 else Inr (node, ts2)))"
| "mul ts =
     (case primary ts of Inl e \<Rightarrow> Inl e
      | Inr (node, ts1) \<Rightarrow> mul_loop node ts1)"
| "mul_loop node ts =
     (case consume CHR ''*'' ts of Inl e \<Rightarrow> Inl e
      | Inr (b, ts1) \<Rightarrow>
          if b then
            (case mul ts1 of Inl e \<Rightarrow> Inl e
             | Inr (rhs, ts2) \<Rightarrow> mul_loop (new_binary ND_MUL node rhs) ts2)
          else
            (case consume CHR ''/'' ts1 of Inl e \<Rightarrow> Inl e
             | Inr (b', ts2) \<Rightarrow>
                 if b' then
                   (case mul ts2 of Inl e \<Rightarrow> Inl e
                    | Inr (rhs, ts3) \<Rightarrow> mul_loop (new_binary ND_DIV node rhs) ts3)
                 else Inr (node, ts2)))"
| "primary ts =
     (case consume CHR ''('' ts of Inl e \<Rightarrow> Inl e
      | Inr (b, ts1) \<Rightarrow>
          if b then
            (case expr ts1 of Inl e \<Rightarrow> Inl e
             | Inr (node, ts2) \<Rightarrow>
                 (case expect CHR '')'' ts2 of Inl e \<Rightarrow> Inl e
                  | Inr ts3 \<Rightarrow> Inr (node, ts3)))
          else
            (case expect_number ts1 of Inl e \<Rightarrow> Inl e
             | Inr (v, ts2) \<Rightarrow> Inr (new_num v, ts2)))"
  by pat_completeness auto


lemma consume_length:
  "consume op ts = Inr (b, ts1) \<Longrightarrow>
     (b \<longrightarrow> length ts1 < length ts) \<and> (\<not> b \<longrightarrow> ts1 = ts)"
  by (cases ts) (auto split: if_splits)

lemma expect_length: "expect op ts = Inr ts1 \<Longrightarrow> length ts1 < length ts"
  by (cases ts) (auto split: if_splits)

lemma expect_number_length: "expect_number ts = Inr (v, ts1) \<Longrightarrow> length ts1 < length ts"
  by (cases ts) (auto split: if_splits)

lemma parser_length_dom:
  "expr_expr_loop_mul_mul_loop_primary_dom (Inl (Inl ts)) \<Longrightarrow>
     expr ts = Inr (n, r) \<Longrightarrow> length r < length ts"
  "expr_expr_loop_mul_mul_loop_primary_dom (Inl (Inr (node, ts))) \<Longrightarrow>
     expr_loop node ts = Inr (n, r) \<Longrightarrow> length r \<le> length ts"
  "expr_expr_loop_mul_mul_loop_primary_dom (Inr (Inl ts)) \<Longrightarrow>
     mul ts = Inr (n, r) \<Longrightarrow> length r < length ts"
  "expr_expr_loop_mul_mul_loop_primary_dom (Inr (Inr (Inl (node, ts)))) \<Longrightarrow>
     mul_loop node ts = Inr (n, r) \<Longrightarrow> length r \<le> length ts"
  "expr_expr_loop_mul_mul_loop_primary_dom (Inr (Inr (Inr ts))) \<Longrightarrow>
     primary ts = Inr (n, r) \<Longrightarrow> length r < length ts"
proof (induct ts and node ts and ts and node ts and ts arbitrary: n r and n r and n r and n r and n r
    rule: expr_expr_loop_mul_mul_loop_primary.pinduct)
  case (1 ts)
  from 1(4) obtain m ts1 where a: "mul ts = Inr (m, ts1)" and b: "expr_loop m ts1 = Inr (n, r)"
    by (auto simp: expr.psimps [OF 1(1)] split: sum.splits prod.splits)
  from 1(2) [OF a] have "length ts1 < length ts" .
  moreover from 1(3) [OF a refl b] have "length r \<le> length ts1" .
  ultimately show ?case by simp
next
  case (2 node ts)
  note eq = expr_loop.psimps [OF 2(1)]
  show ?case
  proof (cases "consume CHR ''+'' ts")
    case (Inl e)
    with 2(6) show ?thesis by (simp add: eq)
  next
    case (Inr bt)
    obtain b ts1 where c1: "consume CHR ''+'' ts = Inr (b, ts1)"
      using Inr by (cases bt) simp
    show ?thesis
    proof (cases b)
      case True
      with 2(6) c1 obtain rhs ts2 where m: "mul ts1 = Inr (rhs, ts2)"
        and l: "expr_loop (new_binary ND_ADD node rhs) ts2 = Inr (n, r)"
        by (auto simp: eq split: sum.splits prod.splits)
      from 2(2) [OF c1 refl True m] have "length ts2 < length ts1" .
      moreover from 2(3) [OF c1 refl True m refl l] have "length r \<le> length ts2" .
      moreover from consume_length [OF c1] True have "length ts1 < length ts" by simp
      ultimately show ?thesis by simp
    next
      case False
      with consume_length [OF c1] have same: "ts1 = ts" by simp
      show ?thesis
      proof (cases "consume CHR ''-'' ts1")
        case (Inl e)
        with 2(6) c1 False show ?thesis by (simp add: eq)
      next
        case (Inr bt')
        obtain b' ts2 where c2: "consume CHR ''-'' ts1 = Inr (b', ts2)"
          using Inr by (cases bt') simp
        show ?thesis
        proof (cases b')
          case True
          with 2(6) c1 c2 False obtain rhs ts3 where m: "mul ts2 = Inr (rhs, ts3)"
            and l: "expr_loop (new_binary ND_SUB node rhs) ts3 = Inr (n, r)"
            by (auto simp: eq split: sum.splits prod.splits)
          from 2(4) [OF c1 refl False c2 refl True m] have "length ts3 < length ts2" .
          moreover from 2(5) [OF c1 refl False c2 refl True m refl l]
          have "length r \<le> length ts3" .
          moreover from consume_length [OF c2] True have "length ts2 < length ts1" by simp
          ultimately show ?thesis using same by simp
        next
          case F2: False
          with 2(6) c1 c2 False have "r = ts2" by (simp add: eq)
          moreover from consume_length [OF c2] F2 have "ts2 = ts1" by simp
          ultimately show ?thesis using same by simp
        qed
      qed
    qed
  qed
next
  case (3 ts)
  from 3(4) obtain m ts1 where a: "primary ts = Inr (m, ts1)" and b: "mul_loop m ts1 = Inr (n, r)"
    by (auto simp: mul.psimps [OF 3(1)] split: sum.splits prod.splits)
  from 3(2) [OF a] have "length ts1 < length ts" .
  moreover from 3(3) [OF a refl b] have "length r \<le> length ts1" .
  ultimately show ?case by simp
next
  case (4 node ts)
  note eq = mul_loop.psimps [OF 4(1)]
  show ?case
  proof (cases "consume CHR ''*'' ts")
    case (Inl e)
    with 4(6) show ?thesis by (simp add: eq)
  next
    case (Inr bt)
    obtain b ts1 where c1: "consume CHR ''*'' ts = Inr (b, ts1)"
      using Inr by (cases bt) simp
    show ?thesis
    proof (cases b)
      case True
      with 4(6) c1 obtain rhs ts2 where m: "mul ts1 = Inr (rhs, ts2)"
        and l: "mul_loop (new_binary ND_MUL node rhs) ts2 = Inr (n, r)"
        by (auto simp: eq split: sum.splits prod.splits)
      from 4(2) [OF c1 refl True m] have "length ts2 < length ts1" .
      moreover from 4(3) [OF c1 refl True m refl l] have "length r \<le> length ts2" .
      moreover from consume_length [OF c1] True have "length ts1 < length ts" by simp
      ultimately show ?thesis by simp
    next
      case False
      with consume_length [OF c1] have same: "ts1 = ts" by simp
      show ?thesis
      proof (cases "consume CHR ''/'' ts1")
        case (Inl e)
        with 4(6) c1 False show ?thesis by (simp add: eq)
      next
        case (Inr bt')
        obtain b' ts2 where c2: "consume CHR ''/'' ts1 = Inr (b', ts2)"
          using Inr by (cases bt') simp
        show ?thesis
        proof (cases b')
          case True
          with 4(6) c1 c2 False obtain rhs ts3 where m: "mul ts2 = Inr (rhs, ts3)"
            and l: "mul_loop (new_binary ND_DIV node rhs) ts3 = Inr (n, r)"
            by (auto simp: eq split: sum.splits prod.splits)
          from 4(4) [OF c1 refl False c2 refl True m] have "length ts3 < length ts2" .
          moreover from 4(5) [OF c1 refl False c2 refl True m refl l]
          have "length r \<le> length ts3" .
          moreover from consume_length [OF c2] True have "length ts2 < length ts1" by simp
          ultimately show ?thesis using same by simp
        next
          case F2: False
          with 4(6) c1 c2 False have "r = ts2" by (simp add: eq)
          moreover from consume_length [OF c2] F2 have "ts2 = ts1" by simp
          ultimately show ?thesis using same by simp
        qed
      qed
    qed
  qed
next
  case (5 ts)
  note eq = primary.psimps [OF 5(1)]
  show ?case
  proof (cases "consume CHR ''('' ts")
    case (Inl e)
    with 5(3) show ?thesis by (simp add: eq)
  next
    case (Inr bt)
    obtain b ts1 where c1: "consume CHR ''('' ts = Inr (b, ts1)"
      using Inr by (cases bt) simp
    show ?thesis
    proof (cases b)
      case True
      with 5(3) c1 obtain ts2 where e: "expr ts1 = Inr (n, ts2)"
        and x: "expect CHR '')'' ts2 = Inr r"
        by (auto simp: eq split: sum.splits prod.splits)
      from 5(2) [OF c1 refl True e] have "length ts2 < length ts1" .
      moreover from expect_length [OF x] have "length r < length ts2" .
      moreover from consume_length [OF c1] True have "length ts1 < length ts" by simp
      ultimately show ?thesis by simp
    next
      case False
      with consume_length [OF c1] have same: "ts1 = ts" by simp
      from 5(3) c1 False obtain v where "expect_number ts1 = Inr (v, r)"
        by (auto simp: eq split: sum.splits prod.splits)
      from expect_number_length [OF this] same show ?thesis by simp
    qed
  qed
qed

termination expr
  apply (relation "measure (\<lambda>x. case x of
      Inl (Inl ts) \<Rightarrow> 3 * length ts + 2
    | Inl (Inr (node, ts)) \<Rightarrow> 3 * length ts
    | Inr (Inl ts) \<Rightarrow> 3 * length ts + 1
    | Inr (Inr (Inl (node, ts))) \<Rightarrow> 3 * length ts
    | Inr (Inr (Inr ts)) \<Rightarrow> 3 * length ts)")
  apply simp_all
  apply (auto dest!: consume_length parser_length_dom)
  done

declare expr.simps [simp del] expr_loop.simps [simp del] mul.simps [simp del]
  mul_loop.simps [simp del] primary.simps [simp del]

section \<open>Code generator\<close>

text \<open>\<open>printf("%ld")\<close>: the decimal digits of a number, and a leading minus sign for a
  negative one.\<close>

function show_nat :: "nat \<Rightarrow> string" where
  "show_nat n =
     (if n < 10 then [''0123456789'' ! n]
      else show_nat (n div 10) @ [''0123456789'' ! (n mod 10)])"
  by pat_completeness auto
termination
  by (relation "measure id") auto

declare show_nat.simps [simp del]

definition show_long :: "long \<Rightarrow> string" where
  "show_long v =
     (if sint v < 0 then CHR ''-'' # show_nat (nat (- sint v)) else show_nat (nat (sint v)))"

text \<open>\<open>gen\<close>: standard output is the list of the lines printed, each \<open>printf\<close> of the
  program printing one line; a line is kept without its newline.\<close>

fun gen :: "Node \<Rightarrow> string list" where
  "gen (ND_NUM v) = [''  push '' @ show_long v]"
| "gen (Binary k lhs rhs) =
     gen lhs @ gen rhs @
     [''  pop rdi'', ''  pop rax''] @
     (case k of
        ND_ADD \<Rightarrow> [''  add rax, rdi'']
      | ND_SUB \<Rightarrow> [''  sub rax, rdi'']
      | ND_MUL \<Rightarrow> [''  imul rax, rdi'']
      | ND_DIV \<Rightarrow> [''  cqo'', ''  idiv rdi'']) @
     [''  push rax'']"

section \<open>The driver\<close>

text \<open>What a run of the process leaves: the lines on standard output, the lines on
  standard error, and the exit status.\<close>

record outcome =
  out :: "string list"
  err :: "string list"
  status :: int

text \<open>\<open>error_at\<close>: \<open>pos = loc - user_input\<close>, with \<open>loc\<close> a pointer into
  \<open>user_input\<close>; then the input, and \<open>pos\<close> spaces, the caret and the message on the
  next line; \<open>exit(1)\<close>.\<close>

definition error_at :: "string \<Rightarrow> string \<Rightarrow> string \<Rightarrow> outcome" where
  "error_at user_input loc msg =
     (let pos = length user_input - length loc in
      \<lparr>out = [], err = [user_input, replicate pos CHR '' '' @ ''^ '' @ msg], status = 1\<rparr>)"

text \<open>How a failed call ends the process. A NULL dereference ends it by SIGSEGV with
  nothing printed (status 139 in a shell).\<close>

fun die :: "string \<Rightarrow> error \<Rightarrow> outcome" where
  "die user_input (Error_at loc msg) = error_at user_input loc msg"
| "die user_input Null_deref = \<lparr>out = [], err = [], status = 139\<rparr>"

text \<open>\<open>main\<close>, on \<open>argv\<close> (\<open>argc\<close> is its length). \<open>error\<close> prints its message and
  exits with 1; \<open>argv[0]\<close> of an empty \<open>argv\<close> is NULL, printed as glibc does.\<close>

definition main :: "string list \<Rightarrow> outcome" where
  "main argv =
     (if length argv \<noteq> 2 then
        \<lparr>out = [],
         err = [(case argv of [] \<Rightarrow> ''(null)'' | a # _ \<Rightarrow> a) @ '' : invalid of number of arguments''],
         status = 1\<rparr>
      else
        let user_input = argv ! 1 in
        case tokenize user_input of Inl e \<Rightarrow> die user_input e
        | Inr token \<Rightarrow>
            (case expr token of Inl e \<Rightarrow> die user_input e
             | Inr (node, token') \<Rightarrow>
                 \<lparr>out = [''.intel_syntax noprefix'', ''.global main'', ''main:''] @ gen node @
                        [''  pop rax'', ''  ret''],
                  err = [], status = 0\<rparr>))"

section \<open>The machine the assembly runs on\<close>

text \<open>The instructions \<open>gen\<close> and \<open>main\<close> print, and the text of each.\<close>

datatype instr =
  PUSH_IMM long | PUSH_RAX | POP_RAX | POP_RDI | ADD | SUB | IMUL | CQO | IDIV | RET

fun asm :: "instr \<Rightarrow> string" where
  "asm (PUSH_IMM v) = ''  push '' @ show_long v"
| "asm PUSH_RAX = ''  push rax''"
| "asm POP_RAX = ''  pop rax''"
| "asm POP_RDI = ''  pop rdi''"
| "asm ADD = ''  add rax, rdi''"
| "asm SUB = ''  sub rax, rdi''"
| "asm IMUL = ''  imul rax, rdi''"
| "asm CQO = ''  cqo''"
| "asm IDIV = ''  idiv rdi''"
| "asm RET = ''  ret''"

text \<open>\<open>gen\<close> as instructions.\<close>

fun gen_code :: "Node \<Rightarrow> instr list" where
  "gen_code (ND_NUM v) = [PUSH_IMM v]"
| "gen_code (Binary k lhs rhs) =
     gen_code lhs @ gen_code rhs @
     [POP_RDI, POP_RAX] @
     (case k of ND_ADD \<Rightarrow> [ADD] | ND_SUB \<Rightarrow> [SUB] | ND_MUL \<Rightarrow> [IMUL] | ND_DIV \<Rightarrow> [CQO, IDIV]) @
     [PUSH_RAX]"

text \<open>The part of an x86-64 machine these instructions touch: three registers and the
  stack above the frame \<open>main\<close> was entered with (top first).\<close>

record machine =
  rax :: long
  rdi :: long
  rdx :: long
  stack :: "long list"

text \<open>Division that truncates toward zero, as \<open>idiv\<close> does.\<close>

definition tdiv :: "int \<Rightarrow> int \<Rightarrow> int" where
  "tdiv a b = sgn a * sgn b * (\<bar>a\<bar> div \<bar>b\<bar>)"

text \<open>One instruction. \<open>None\<close> is a fault: the divide error of \<open>idiv\<close> (a zero divisor,
  or a quotient that does not fit 64 bits), or a \<open>pop\<close> that would leave the frame.
  \<open>cqo\<close> fills \<open>rdx\<close> with the sign of \<open>rax\<close>; \<open>idiv\<close> divides the 128-bit
  \<open>rdx:rax\<close>, quotient to \<open>rax\<close>, remainder to \<open>rdx\<close>. \<open>ret\<close> leaves the state to the
  caller, which reads \<open>rax\<close>.\<close>

fun step :: "instr \<Rightarrow> machine \<Rightarrow> machine option" where
  "step (PUSH_IMM v) m = Some (m\<lparr>stack := v # stack m\<rparr>)"
| "step PUSH_RAX m = Some (m\<lparr>stack := rax m # stack m\<rparr>)"
| "step POP_RAX m = (case stack m of [] \<Rightarrow> None | v # s \<Rightarrow> Some (m\<lparr>rax := v, stack := s\<rparr>))"
| "step POP_RDI m = (case stack m of [] \<Rightarrow> None | v # s \<Rightarrow> Some (m\<lparr>rdi := v, stack := s\<rparr>))"
| "step ADD m = Some (m\<lparr>rax := rax m + rdi m\<rparr>)"
| "step SUB m = Some (m\<lparr>rax := rax m - rdi m\<rparr>)"
| "step IMUL m = Some (m\<lparr>rax := rax m * rdi m\<rparr>)"
| "step CQO m = Some (m\<lparr>rdx := (if sint (rax m) < 0 then - 1 else 0)\<rparr>)"
| "step IDIV m =
     (let dividend = sint (rdx m) * 2 ^ 64 + uint (rax m); divisor = sint (rdi m) in
      if divisor = 0 then None
      else
        let q = tdiv dividend divisor in
        if q < - (2 ^ 63) \<or> 2 ^ 63 \<le> q then None
        else Some (m\<lparr>rax := word_of_int q, rdx := word_of_int (dividend - q * divisor)\<rparr>))"
| "step RET m = Some m"

fun exec :: "instr list \<Rightarrow> machine \<Rightarrow> machine option" where
  "exec [] m = Some m"
| "exec (i # is) m = (case step i m of None \<Rightarrow> None | Some m' \<Rightarrow> exec is m')"

text \<open>The program \<open>main\<close> prints for a tree, and the value it returns in \<open>rax\<close> when
  run from a machine state.\<close>

definition program :: "Node \<Rightarrow> instr list" where
  "program node = gen_code node @ [POP_RAX, RET]"

definition run :: "Node \<Rightarrow> machine \<Rightarrow> long option" where
  "run node m = map_option rax (exec (program node) m)"

text \<open>Source text to tree: \<open>tokenize\<close>, then \<open>expr\<close>, as \<open>main\<close> calls them.\<close>

definition parse :: "string \<Rightarrow> error + Node" where
  "parse user_input =
     (case tokenize user_input of Inl e \<Rightarrow> Inl e
      | Inr token \<Rightarrow> (case expr token of Inl e \<Rightarrow> Inl e | Inr (node, token') \<Rightarrow> Inr node))"

section \<open>Notions the properties are stated with\<close>

text \<open>How much an instruction moves the stack pointer, in slots, and the sum over a
  sequence.\<close>

fun stack_delta :: "instr \<Rightarrow> int" where
  "stack_delta (PUSH_IMM v) = 1"
| "stack_delta PUSH_RAX = 1"
| "stack_delta POP_RAX = - 1"
| "stack_delta POP_RDI = - 1"
| "stack_delta i = 0"

definition net_effect :: "instr list \<Rightarrow> int" where
  "net_effect is = sum_list (map stack_delta is)"

text \<open>The value of a tree in the machine's arithmetic: 64-bit wrap-around for \<open>+\<close>,
  \<open>-\<close> and \<open>*\<close>; a division faults on a zero divisor and on a quotient outside 64
  bits, and truncates toward zero otherwise.\<close>

fun binop :: "NodeKind \<Rightarrow> long \<Rightarrow> long \<Rightarrow> long option" where
  "binop ND_ADD a b = Some (a + b)"
| "binop ND_SUB a b = Some (a - b)"
| "binop ND_MUL a b = Some (a * b)"
| "binop ND_DIV a b =
     (if sint b = 0 then None
      else
        let q = tdiv (sint a) (sint b) in
        if q < - (2 ^ 63) \<or> 2 ^ 63 \<le> q then None else Some (word_of_int q))"

fun node_value :: "Node \<Rightarrow> long option" where
  "node_value (ND_NUM v) = Some v"
| "node_value (Binary k lhs rhs) =
     (case node_value lhs of None \<Rightarrow> None
      | Some a \<Rightarrow> (case node_value rhs of None \<Rightarrow> None | Some b \<Rightarrow> binop k a b))"

text \<open>A token list whose last token is the \<open>TK_EOF\<close> token: what \<open>tokenize\<close> returns, and every
  cursor the parser reaches on it.\<close>

definition ends_eof :: "Token list \<Rightarrow> bool" where
  "ends_eof ts = (case rev ts of [] \<Rightarrow> False | t # _ \<Rightarrow> kind t = TK_EOF)"

text \<open>The messages of the parser: the one of \<open>expect_number\<close>, and the one of the only
  \<open>expect\<close>, for the closing parenthesis.\<close>

definition is_message :: "string \<Rightarrow> bool" where
  "is_message msg = (msg = ''expected a number'' \<or>
     msg = ''expected: '' @ [CHR 0x27, CHR '')'', CHR 0x27])"

text \<open>What a parser function returns on a cursor \<open>ts\<close>: an error located at one of the tokens
  of \<open>ts\<close>, or a result with a cursor further along \<open>ts\<close>.\<close>

definition parsed_ok :: "Token list \<Rightarrow> error + ('a \<times> Token list) \<Rightarrow> bool" where
  "parsed_ok ts res = (case res of
      Inl e \<Rightarrow> \<exists>t\<in>set ts. \<exists>msg. e = Error_at (str t) msg \<and> is_message msg
    | Inr (n, r) \<Rightarrow> ends_eof r \<and> suffix r ts)"

text \<open>The number of maximal digit runs of a string; \<open>prev\<close> says whether the character before
  was a digit.\<close>

fun digit_runs :: "bool \<Rightarrow> string \<Rightarrow> nat" where
  "digit_runs prev [] = 0"
| "digit_runs prev (c # cs) = (if isdigit c \<and> \<not> prev then 1 else 0) + digit_runs (isdigit c) cs"

text \<open>The source text of a token: one character for a punctuator, the digit run for a number.\<close>

definition token_text :: "Token \<Rightarrow> string" where
  "token_text t = (case kind t of
      TK_RESERVED \<Rightarrow> take 1 (str t)
    | TK_NUM \<Rightarrow> takeWhile isdigit (str t)
    | TK_EOF \<Rightarrow> [])"

text \<open>What a successful tokenization returns for a source.\<close>

definition lexed :: "string \<Rightarrow> Token list \<Rightarrow> bool" where
  "lexed s ts =
     ((\<exists>body. ts = body @ [new_token TK_EOF []] \<and> (\<forall>t\<in>set body. kind t \<noteq> TK_EOF)) \<and>
      (\<forall>t\<in>set ts. suffix (str t) s) \<and>
      (\<forall>t\<in>set ts. kind t = TK_RESERVED \<longrightarrow> ispunct (str0 t)) \<and>
      length (filter (\<lambda>t. kind t = TK_RESERVED) ts) = length (filter ispunct s) \<and>
      length (filter (\<lambda>t. kind t = TK_NUM) ts) = digit_runs False s \<and>
      concat (map token_text ts) = filter (\<lambda>c. \<not> isspace c) s)"

text \<open>The current token is a punctuator among \<open>ops\<close>.\<close>

definition at_op :: "string \<Rightarrow> Token list \<Rightarrow> bool" where
  "at_op ops ts = (case ts of [] \<Rightarrow> False | t # _ \<Rightarrow> kind t = TK_RESERVED \<and> str0 t \<in> set ops)"

text \<open>What the parser can see of a token: its kind, its value and its text (not where it
  stands in the source).\<close>

definition token_view :: "Token \<Rightarrow> TokenKind \<times> long \<times> string" where
  "token_view t = (kind t, val t, token_text t)"

text \<open>Two token lists with the same tokens, in the same order, up to their places in the source.\<close>

definition same_tokens :: "Token list \<Rightarrow> Token list \<Rightarrow> bool" where
  "same_tokens ts ts' = (map token_view ts = map token_view ts')"

text \<open>Two sources that differ only in the white space between tokens: the equivalence
  generated by putting one white-space character anywhere but inside a digit run.\<close>

inductive ws_equiv :: "string \<Rightarrow> string \<Rightarrow> bool" where
  same: "ws_equiv s s"
| space: "isspace c \<Longrightarrow> \<not> (a \<noteq> [] \<and> isdigit (last a) \<and> b \<noteq> [] \<and> isdigit (hd b)) \<Longrightarrow>
     ws_equiv (a @ b) (a @ c # b)"
| swap: "ws_equiv s t \<Longrightarrow> ws_equiv t s"
| chain: "ws_equiv s t \<Longrightarrow> ws_equiv t u \<Longrightarrow> ws_equiv s u"

text \<open>Two failures of the same kind with the same message.\<close>

definition same_error :: "error \<Rightarrow> error \<Rightarrow> bool" where
  "same_error e e' = (case e of
      Error_at loc msg \<Rightarrow> (\<exists>loc'. e' = Error_at loc' msg)
    | Null_deref \<Rightarrow> e' = Null_deref)"

text \<open>Two results of a parser function that agree: failures of the same kind, or the same tree
  with cursors on the same tokens.\<close>

definition same_result ::
  "error + ('a \<times> Token list) \<Rightarrow> error + ('a \<times> Token list) \<Rightarrow> bool" where
  "same_result res res' = (case res of
      Inl e \<Rightarrow> (case res' of Inl e' \<Rightarrow> same_error e e' | Inr p' \<Rightarrow> False)
    | Inr (n, r) \<Rightarrow> (case res' of Inl e' \<Rightarrow> False | Inr (n', r') \<Rightarrow> n = n' \<and> same_tokens r r'))"

text \<open>Two results of \<open>tokenize\<close> that agree: both fail, or both return the same tokens.\<close>

definition same_lex :: "error + Token list \<Rightarrow> error + Token list \<Rightarrow> bool" where
  "same_lex res res' = (case res of
      Inl e \<Rightarrow> (\<exists>e'. res' = Inl e')
    | Inr ts \<Rightarrow> (\<exists>ts'. res' = Inr ts' \<and> same_tokens ts ts'))"

text \<open>A cursor at which \<open>expr\<close> returns: there is a current token and it is none of the four
  operators.\<close>

definition stops :: "Token list \<Rightarrow> bool" where
  "stops c = (c \<noteq> [] \<and> \<not> at_op ''+-*/'' c)"



section \<open>Auxiliary facts\<close>

lemmas lex_eval = isspace_def ispunct_def isdigit_def strtol_def decimal_def LONG_MAX_def
  new_token_def

lemmas parse_eval = expr.simps expr_loop.simps mul.simps mul_loop.simps primary.simps
  str0_def new_num_def new_binary_def

lemmas gen_eval = show_long_def show_nat.simps

lemma tokenize_spaces:
  "\<forall>c\<in>set s. isspace c \<Longrightarrow> tokenize s = Inr [new_token TK_EOF []]"
  by (induction s) auto

lemma exec_append:
  "exec (xs @ ys) m = (case exec xs m of None \<Rightarrow> None | Some m' \<Rightarrow> exec ys m')"
  by (induction xs arbitrary: m) (auto split: option.splits)

lemma uint_of_sint:
  fixes a :: long
  shows "uint a = (if sint a < 0 then sint a + 2 ^ 64 else sint a)"
proof -
  have u: "uint a = sint a mod 2 ^ 64"
    by (simp add: uint_sint take_bit_eq_mod)
  have lo: "- (2 ^ 63) \<le> sint a" using sint_ge [of a] by simp
  have hi: "sint a < 2 ^ 63" using sint_lt [of a] by simp
  show ?thesis
  proof (cases "sint a < 0")
    case True
    have "sint a mod 2 ^ 64 = (sint a + 2 ^ 64) mod 2 ^ 64" by simp
    also have "\<dots> = sint a + 2 ^ 64"
      using lo hi True by (intro mod_pos_pos_trivial) simp_all
    finally show ?thesis using True u by simp
  next
    case False
    then have "sint a mod 2 ^ 64 = sint a"
      using hi by (intro mod_pos_pos_trivial) simp_all
    then show ?thesis using False u by simp
  qed
qed

text \<open>After \<open>cqo\<close>, the 128-bit dividend \<open>rdx:rax\<close> is the signed value of \<open>rax\<close>.\<close>

lemma cqo_dividend:
  fixes a :: long
  shows "sint (if sint a < 0 then - 1 else 0 :: long) * 2 ^ 64 + uint a = sint a"
  by (simp add: uint_of_sint)

text \<open>The code of a tree either faults, when the tree's value does, or pushes the
  tree's value on the stack it started with.\<close>

lemma exec_gen_code:
  "case node_value n of
     None \<Rightarrow> exec (gen_code n) m = None
   | Some v \<Rightarrow> \<exists>m'. exec (gen_code n) m = Some m' \<and> stack m' = v # stack m"
proof (induction n arbitrary: m)
  case (ND_NUM v)
  show ?case by simp
next
  case (Binary k lhs rhs)
  show ?case
  proof (cases "node_value lhs")
    case None
    with Binary.IH(1) [of m] show ?thesis by (simp add: exec_append)
  next
    case (Some a)
    with Binary.IH(1) [of m] obtain m1 where
      l: "exec (gen_code lhs) m = Some m1" and s1: "stack m1 = a # stack m" by auto
    show ?thesis
    proof (cases "node_value rhs")
      case None
      with Binary.IH(2) [of m1] l Some show ?thesis by (simp add: exec_append)
    next
      case (Some b)
      with Binary.IH(2) [of m1] obtain m2 where
        r: "exec (gen_code rhs) m1 = Some m2" and s2: "stack m2 = b # stack m1" by auto
      show ?thesis
        using l r \<open>node_value lhs = Some a\<close> Some s1 s2 cqo_dividend [of a]
        by (cases k) (simp_all add: exec_append Let_def)
    qed
  qed
qed

lemma run_node_value: "run n m = node_value n"
  using exec_gen_code [of n m]
  by (auto simp: run_def program_def exec_append split: option.splits)

lemma gen_lines: "gen n = map asm (gen_code n)"
  by (induction n) (auto split: NodeKind.splits)

lemma net_effect_gen_code: "net_effect (gen_code n) = 1"
  by (induction n) (auto simp: net_effect_def split: NodeKind.splits)

lemma ends_eof_Cons: "ends_eof (t # nxt) = (if nxt = [] then kind t = TK_EOF else ends_eof nxt)"
  by (cases nxt rule: rev_cases) (simp_all add: ends_eof_def)

lemma ends_eof_Nil [simp]: "\<not> ends_eof []"
  by (simp add: ends_eof_def)

lemma ok_mono: "suffix r ts \<Longrightarrow> parsed_ok r res \<Longrightarrow> parsed_ok ts res"
  unfolding parsed_ok_def
  by (auto split: sum.splits dest: set_mono_suffix intro: suffix_order.trans)

lemma ok_bind:
  assumes "parsed_ok ts res"
    and "\<And>n r. res = Inr (n, r) \<Longrightarrow> ends_eof r \<Longrightarrow> parsed_ok r (g n r)"
  shows "parsed_ok ts (case res of Inl e \<Rightarrow> Inl e | Inr (n, r) \<Rightarrow> g n r)"
proof (cases res)
  case (Inl e)
  with assms(1) show ?thesis by (simp add: parsed_ok_def)
next
  case (Inr p)
  obtain n r where p: "p = (n, r)" by (cases p)
  with Inr assms(1) have e: "ends_eof r" and s: "suffix r ts" by (simp_all add: parsed_ok_def)
  from assms(2) [OF _ e] Inr p have "parsed_ok r (g n r)" by simp
  with s have "parsed_ok ts (g n r)" by (rule ok_mono)
  with Inr p show ?thesis by simp
qed

lemma ok_consume:
  assumes "ends_eof ts"
    and "\<And>ts1. consume op ts = Inr (True, ts1) \<Longrightarrow> ends_eof ts1 \<Longrightarrow> parsed_ok ts1 (g True ts1)"
    and "consume op ts = Inr (False, ts) \<Longrightarrow> parsed_ok ts (g False ts)"
  shows "parsed_ok ts (case consume op ts of Inl e \<Rightarrow> Inl e | Inr (b, ts1) \<Rightarrow> g b ts1)"
proof -
  from assms(1) obtain t nxt where ts: "ts = t # nxt" by (cases ts) simp_all
  show ?thesis
  proof (cases "kind t \<noteq> TK_RESERVED \<or> str0 t \<noteq> op")
    case True
    with ts have "consume op ts = Inr (False, ts)" by simp
    with assms(3) show ?thesis by simp
  next
    case False
    with ts have c: "consume op ts = Inr (True, nxt)" by simp
    from False assms(1) ts have e: "ends_eof nxt"
      by (auto simp: ends_eof_Cons split: if_splits)
    from assms(2) [OF c e] have "parsed_ok nxt (g True nxt)" .
    then have "parsed_ok ts (g True nxt)" using ts by (intro ok_mono [of nxt ts]) (simp_all add: suffix_Cons)
    with c show ?thesis by simp
  qed
qed

lemma ok_expect:
  assumes "ends_eof ts"
  shows "parsed_ok ts (case expect CHR '')'' ts of Inl e \<Rightarrow> Inl e | Inr ts3 \<Rightarrow> Inr (node, ts3))"
proof -
  from assms obtain t nxt where ts: "ts = t # nxt" by (cases ts) simp_all
  show ?thesis
    using assms ts
    by (auto simp: parsed_ok_def is_message_def ends_eof_Cons suffix_Cons split: if_splits)
qed

lemma ok_expect_number:
  assumes "ends_eof ts"
  shows "parsed_ok ts (case expect_number ts of Inl e \<Rightarrow> Inl e | Inr (v, ts2) \<Rightarrow> Inr (new_num v, ts2))"
proof -
  from assms obtain t nxt where ts: "ts = t # nxt" by (cases ts) simp_all
  show ?thesis
    using assms ts
    by (auto simp: parsed_ok_def is_message_def ends_eof_Cons suffix_Cons split: if_splits)
qed

lemma parser_ok:
  "ends_eof ts \<Longrightarrow> parsed_ok ts (expr ts)"
  "ends_eof ts \<Longrightarrow> parsed_ok ts (expr_loop node ts)"
  "ends_eof ts \<Longrightarrow> parsed_ok ts (mul ts)"
  "ends_eof ts \<Longrightarrow> parsed_ok ts (mul_loop node ts)"
  "ends_eof ts \<Longrightarrow> parsed_ok ts (primary ts)"
proof (induct ts and node ts and ts and node ts and ts
    rule: expr_expr_loop_mul_mul_loop_primary.induct)
  case (1 ts)
  show ?case
    apply (subst expr.simps)
    apply (rule ok_bind)
     apply (rule 1(1) [OF 1(3)])
    apply (erule 1(2) [OF _ refl])
    apply assumption
    done
next
  case (2 node ts)
  show ?case
    apply (subst expr_loop.simps)
    apply (rule ok_consume [OF 2(5)])
     apply simp
     apply (rule ok_bind)
      apply (erule 2(1) [OF _ refl], simp, assumption)
     apply (erule 2(2) [OF _ refl _ _ refl], simp, assumption, assumption)
    apply simp
    apply (rule ok_consume [OF 2(5)])
     apply simp
     apply (rule ok_bind)
      apply (erule 2(3) [OF _ refl _ _ refl], simp, assumption, simp, assumption)
     apply (erule 2(4) [OF _ refl _ _ refl _ _ refl], simp, assumption, simp, assumption, assumption)
    apply (simp add: parsed_ok_def 2(5))
    done
next
  case (3 ts)
  show ?case
    apply (subst mul.simps)
    apply (rule ok_bind)
     apply (rule 3(1) [OF 3(3)])
    apply (erule 3(2) [OF _ refl])
    apply assumption
    done
next
  case (4 node ts)
  show ?case
    apply (subst mul_loop.simps)
    apply (rule ok_consume [OF 4(5)])
     apply simp
     apply (rule ok_bind)
      apply (erule 4(1) [OF _ refl], simp, assumption)
     apply (erule 4(2) [OF _ refl _ _ refl], simp, assumption, assumption)
    apply simp
    apply (rule ok_consume [OF 4(5)])
     apply simp
     apply (rule ok_bind)
      apply (erule 4(3) [OF _ refl _ _ refl], simp, assumption, simp, assumption)
     apply (erule 4(4) [OF _ refl _ _ refl _ _ refl], simp, assumption, simp, assumption, assumption)
    apply (simp add: parsed_ok_def 4(5))
    done
next
  case (5 ts)
  show ?case
    apply (subst primary.simps)
    apply (rule ok_consume [OF 5(2)])
     apply simp
     apply (rule ok_bind)
      apply (erule 5(1) [OF _ refl], simp, assumption)
     apply (erule ok_expect)
    apply simp
    apply (rule ok_expect_number [OF 5(2)])
    done
qed

lemma digit_not_space: "isdigit c \<Longrightarrow> \<not> isspace c"
  by (auto simp: isdigit_def isspace_def Let_def)

lemma digit_not_punct: "isdigit c \<Longrightarrow> \<not> ispunct c"
  by (auto simp: isdigit_def ispunct_def Let_def)

lemma punct_not_space: "ispunct c \<Longrightarrow> \<not> isspace c"
  by (auto simp: ispunct_def isspace_def Let_def)

lemma strtol_rest: "isdigit c \<Longrightarrow> snd (strtol (c # cs)) = dropWhile isdigit cs"
  by (simp add: strtol_def Let_def)

lemma digit_runs_skip: "digit_runs True cs = digit_runs False (dropWhile isdigit cs)"
proof (induction cs)
  case Nil
  show ?case by simp
next
  case (Cons c cs)
  show ?case
  proof (cases "isdigit c")
    case True
    with Cons show ?thesis by simp
  next
    case False
    then show ?thesis by simp
  qed
qed

lemma filter_punct_digits: "filter ispunct (dropWhile isdigit cs) = filter ispunct cs"
  by (induction cs) (auto dest: digit_not_punct)

lemma filter_nonspace_digits:
  "filter (\<lambda>c. \<not> isspace c) cs =
     takeWhile isdigit cs @ filter (\<lambda>c. \<not> isspace c) (dropWhile isdigit cs)"
  by (induction cs) (auto dest: digit_not_space)

lemma lexed_Nil: "lexed [] [new_token TK_EOF []]"
  by (simp add: lexed_def new_token_def token_text_def)

lemma lexed_space:
  assumes "isspace c" and "lexed cs ts"
  shows "lexed (c # cs) ts"
proof -
  have nd: "\<not> isdigit c" using assms(1) digit_not_space by blast
  have np: "\<not> ispunct c" using assms(1) punct_not_space by blast
  from assms(2) have 1: "\<exists>body. ts = body @ [new_token TK_EOF []] \<and> (\<forall>t\<in>set body. kind t \<noteq> TK_EOF)"
    and a2: "\<forall>t\<in>set ts. suffix (str t) cs"
    and 3: "\<forall>t\<in>set ts. kind t = TK_RESERVED \<longrightarrow> ispunct (str0 t)"
    and a4: "length (filter (\<lambda>t. kind t = TK_RESERVED) ts) = length (filter ispunct cs)"
    and a5: "length (filter (\<lambda>t. kind t = TK_NUM) ts) = digit_runs False cs"
    and a6: "concat (map token_text ts) = filter (\<lambda>c. \<not> isspace c) cs"
    unfolding lexed_def by simp_all
  have 2: "\<forall>t\<in>set ts. suffix (str t) (c # cs)"
    using a2 by (simp add: suffix_Cons)
  have 4: "length (filter (\<lambda>t. kind t = TK_RESERVED) ts) = length (filter ispunct (c # cs))"
    using a4 np by simp
  have 5: "length (filter (\<lambda>t. kind t = TK_NUM) ts) = digit_runs False (c # cs)"
    using a5 nd by simp
  have 6: "concat (map token_text ts) = filter (\<lambda>c. \<not> isspace c) (c # cs)"
    using a6 assms(1) by simp
  show ?thesis
    unfolding lexed_def using 1 2 3 4 5 6 by blast
qed

lemma lexed_punct:
  assumes "ispunct c" and "lexed cs ts"
  shows "lexed (c # cs) (new_token TK_RESERVED (c # cs) # ts)"
proof -
  from assms(2) obtain body where b: "ts = body @ [new_token TK_EOF []]"
    and nb: "\<forall>t\<in>set body. kind t \<noteq> TK_EOF"
    unfolding lexed_def by blast
  have 1: "\<exists>body'. new_token TK_RESERVED (c # cs) # ts = body' @ [new_token TK_EOF []] \<and>
      (\<forall>t\<in>set body'. kind t \<noteq> TK_EOF)"
    using b nb by (intro exI [of _ "new_token TK_RESERVED (c # cs) # body"]) (simp add: new_token_def)
  have nd: "\<not> isdigit c" using assms(1) digit_not_punct by blast
  have ns: "\<not> isspace c" using assms(1) punct_not_space by blast
  from assms(2) have a2: "\<forall>t\<in>set ts. suffix (str t) cs"
    and a3: "\<forall>t\<in>set ts. kind t = TK_RESERVED \<longrightarrow> ispunct (str0 t)"
    and a4: "length (filter (\<lambda>t. kind t = TK_RESERVED) ts) = length (filter ispunct cs)"
    and a5: "length (filter (\<lambda>t. kind t = TK_NUM) ts) = digit_runs False cs"
    and a6: "concat (map token_text ts) = filter (\<lambda>c. \<not> isspace c) cs"
    unfolding lexed_def by simp_all
  have 2: "\<forall>t\<in>set (new_token TK_RESERVED (c # cs) # ts). suffix (str t) (c # cs)"
    using a2 by (simp add: new_token_def suffix_Cons)
  have 3: "\<forall>t\<in>set (new_token TK_RESERVED (c # cs) # ts).
      kind t = TK_RESERVED \<longrightarrow> ispunct (str0 t)"
    using a3 assms(1) by (simp add: new_token_def str0_def)
  have 4: "length (filter (\<lambda>t. kind t = TK_RESERVED) (new_token TK_RESERVED (c # cs) # ts)) =
      length (filter ispunct (c # cs))"
    using a4 assms(1) by (simp add: new_token_def)
  have 5: "length (filter (\<lambda>t. kind t = TK_NUM) (new_token TK_RESERVED (c # cs) # ts)) =
      digit_runs False (c # cs)"
    using a5 nd by (simp add: new_token_def)
  have 6: "concat (map token_text (new_token TK_RESERVED (c # cs) # ts)) =
      filter (\<lambda>c. \<not> isspace c) (c # cs)"
    using a6 ns by (simp add: new_token_def token_text_def)
  show ?thesis
    unfolding lexed_def using 1 2 3 4 5 6 by blast
qed

lemma lexed_digit:
  assumes "isdigit c" and "lexed (dropWhile isdigit cs) ts"
  shows "lexed (c # cs) ((new_token TK_NUM (c # cs))\<lparr>val := v\<rparr> # ts)"
proof -
  let ?p = "dropWhile isdigit cs"
  from assms(2) obtain body where b: "ts = body @ [new_token TK_EOF []]"
    and nb: "\<forall>t\<in>set body. kind t \<noteq> TK_EOF"
    unfolding lexed_def by blast
  have 1: "\<exists>body'. (new_token TK_NUM (c # cs))\<lparr>val := v\<rparr> # ts = body' @ [new_token TK_EOF []] \<and>
      (\<forall>t\<in>set body'. kind t \<noteq> TK_EOF)"
    using b nb
    by (intro exI [of _ "(new_token TK_NUM (c # cs))\<lparr>val := v\<rparr> # body"]) (simp add: new_token_def)
  have sp: "suffix ?p (c # cs)"
    by (simp add: suffix_Cons suffix_dropWhile)
  from assms(2) have a2: "\<forall>t\<in>set ts. suffix (str t) ?p"
    and a3: "\<forall>t\<in>set ts. kind t = TK_RESERVED \<longrightarrow> ispunct (str0 t)"
    and a4: "length (filter (\<lambda>t. kind t = TK_RESERVED) ts) = length (filter ispunct ?p)"
    and a5: "length (filter (\<lambda>t. kind t = TK_NUM) ts) = digit_runs False ?p"
    and a6: "concat (map token_text ts) = filter (\<lambda>c. \<not> isspace c) ?p"
    unfolding lexed_def by simp_all
  have ns: "\<not> isspace c" using assms(1) digit_not_space by blast
  have np: "\<not> ispunct c" using assms(1) digit_not_punct by blast
  have 2: "\<forall>t\<in>set ((new_token TK_NUM (c # cs))\<lparr>val := v\<rparr> # ts). suffix (str t) (c # cs)"
    using a2 sp by (auto simp: new_token_def intro: suffix_order.trans)
  have 3: "\<forall>t\<in>set ((new_token TK_NUM (c # cs))\<lparr>val := v\<rparr> # ts).
      kind t = TK_RESERVED \<longrightarrow> ispunct (str0 t)"
    using a3 by (simp add: new_token_def)
  have 4: "length (filter (\<lambda>t. kind t = TK_RESERVED) ((new_token TK_NUM (c # cs))\<lparr>val := v\<rparr> # ts)) =
      length (filter ispunct (c # cs))"
    using a4 np by (simp add: new_token_def filter_punct_digits)
  have 5: "length (filter (\<lambda>t. kind t = TK_NUM) ((new_token TK_NUM (c # cs))\<lparr>val := v\<rparr> # ts)) =
      digit_runs False (c # cs)"
    using a5 assms(1) by (simp add: new_token_def digit_runs_skip)
  have 6: "concat (map token_text ((new_token TK_NUM (c # cs))\<lparr>val := v\<rparr> # ts)) =
      filter (\<lambda>c. \<not> isspace c) (c # cs)"
    using a6 assms(1) ns filter_nonspace_digits [of cs]
    by (simp add: new_token_def token_text_def)
  show ?thesis
    unfolding lexed_def using 1 2 3 4 5 6 by blast
qed

lemma tokenize_lexed: "tokenize s = Inr ts \<Longrightarrow> lexed s ts"
proof (induction s arbitrary: ts rule: tokenize.induct)
  case 1
  then show ?case by (auto simp: lexed_Nil)
next
  case (2 c cs)
  show ?case
  proof (cases "isspace c")
    case True
    with 2 show ?thesis by (simp add: lexed_space)
  next
    case ns: False
    show ?thesis
    proof (cases "ispunct c")
      case True
      with ns 2(4) obtain ts' where t: "tokenize cs = Inr ts'"
        and e: "ts = new_token TK_RESERVED (c # cs) # ts'"
        by (auto split: sum.splits)
      from 2(2) [OF ns True t] have "lexed cs ts'" .
      with True e show ?thesis by (simp add: lexed_punct)
    next
      case np: False
      show ?thesis
      proof (cases "isdigit c")
        case True
        obtain v p' where st: "strtol (c # cs) = (v, p')" by (cases "strtol (c # cs)")
        with True strtol_rest [of c cs] have p': "p' = dropWhile isdigit cs" by simp
        from ns np True st 2(4) obtain ts' where t: "tokenize p' = Inr ts'"
          and e: "ts = (new_token TK_NUM (c # cs))\<lparr>val := v\<rparr> # ts'"
          by (auto split: sum.splits)
        from 2(3) [OF ns np True st [symmetric] t] have "lexed p' ts'" .
        with True e p' show ?thesis by (simp add: lexed_digit)
      next
        case False
        with ns np 2(4) show ?thesis by simp
      qed
    qed
  qed
qed

lemma tokenize_error:
  "tokenize s = Inl e \<Longrightarrow> \<exists>loc. e = Error_at loc ''invalid token'' \<and> suffix loc s"
proof (induction s rule: tokenize.induct)
  case 1
  then show ?case by simp
next
  case (2 c cs)
  show ?case
  proof (cases "isspace c")
    case True
    with 2 show ?thesis by (auto simp: suffix_Cons)
  next
    case ns: False
    show ?thesis
    proof (cases "ispunct c")
      case True
      with ns 2(4) have "tokenize cs = Inl e" by (auto split: sum.splits)
      from 2(2) [OF ns True this] show ?thesis by (auto simp: suffix_Cons)
    next
      case np: False
      show ?thesis
      proof (cases "isdigit c")
        case True
        obtain v p' where st: "strtol (c # cs) = (v, p')" by (cases "strtol (c # cs)")
        with True strtol_rest [of c cs] have p': "p' = dropWhile isdigit cs" by simp
        from ns np True st 2(4) have t: "tokenize p' = Inl e"
          by (auto split: sum.splits)
        from 2(3) [OF ns np True st [symmetric] t] obtain loc where
          "e = Error_at loc ''invalid token''" and "suffix loc p'" by blast
        moreover have "suffix p' (c # cs)" using p' by (simp add: suffix_Cons suffix_dropWhile)
        ultimately show ?thesis by (blast intro: suffix_order.trans)
      next
        case False
        with ns np 2(4) show ?thesis by auto
      qed
    qed
  qed
qed

lemma tokenize_succeeds:
  "(\<exists>ts. tokenize s = Inr ts) = (\<forall>c\<in>set s. isspace c \<or> ispunct c \<or> isdigit c)"
proof (induction s rule: tokenize.induct)
  case 1
  show ?case by simp
next
  case (2 c cs)
  show ?case
  proof (cases "isspace c")
    case True
    with 2(1) show ?thesis by simp
  next
    case ns: False
    show ?thesis
    proof (cases "ispunct c")
      case True
      with ns 2(2) show ?thesis by (auto split: sum.splits)
    next
      case np: False
      show ?thesis
      proof (cases "isdigit c")
        case True
        obtain v p' where st: "strtol (c # cs) = (v, p')" by (cases "strtol (c # cs)")
        with True strtol_rest [of c cs] have p': "p' = dropWhile isdigit cs" by simp
        have eq: "tokenize (c # cs) =
            (case tokenize p' of Inl e \<Rightarrow> Inl e
             | Inr ts \<Rightarrow> Inr ((new_token TK_NUM (c # cs))\<lparr>val := v\<rparr> # ts))"
          using ns np True st by simp
        have l: "(\<exists>ts. tokenize (c # cs) = Inr ts) = (\<exists>ts. tokenize p' = Inr ts)"
          unfolding eq by (cases "tokenize p'") simp_all
        have cs: "cs = takeWhile isdigit cs @ p'"
          unfolding p' by simp
        have dig: "\<forall>c\<in>set (takeWhile isdigit cs). isdigit c"
          by (blast dest: set_takeWhileD)
        have "(\<forall>c\<in>set cs. isspace c \<or> ispunct c \<or> isdigit c) =
            (\<forall>c\<in>set (takeWhile isdigit cs @ p'). isspace c \<or> ispunct c \<or> isdigit c)"
          using cs by simp
        also have "\<dots> = (\<forall>c\<in>set p'. isspace c \<or> ispunct c \<or> isdigit c)"
          using dig by auto
        finally have r: "(\<forall>c\<in>set cs. isspace c \<or> ispunct c \<or> isdigit c) =
            (\<forall>c\<in>set p'. isspace c \<or> ispunct c \<or> isdigit c)" .
        from 2(3) [OF ns np True st [symmetric]] l r True show ?thesis by simp
      next
        case False
        with ns np show ?thesis by auto
      qed
    qed
  qed
qed

lemma lexed_ends_eof: "lexed s ts \<Longrightarrow> ends_eof ts"
  by (auto simp: lexed_def ends_eof_def new_token_def)

lemma length_by_kind:
  "length ts = length (filter (\<lambda>t. kind t = TK_RESERVED) ts) +
     length (filter (\<lambda>t. kind t = TK_NUM) ts) + length (filter (\<lambda>t. kind t = TK_EOF) ts)"
proof (induction ts)
  case Nil
  show ?case by simp
next
  case (Cons t ts)
  then show ?case by (cases "kind t") simp_all
qed

lemma one_eof:
  assumes "ts = body @ [new_token TK_EOF []]" and "\<forall>t\<in>set body. kind t \<noteq> TK_EOF"
  shows "length (filter (\<lambda>t. kind t = TK_EOF) ts) = 1" and "kind (last ts) = TK_EOF"
proof -
  from assms(2) have "filter (\<lambda>t. kind t = TK_EOF) body = []"
    by (simp add: filter_empty_conv)
  with assms(1) show "length (filter (\<lambda>t. kind t = TK_EOF) ts) = 1"
    by (simp add: new_token_def)
  from assms(1) show "kind (last ts) = TK_EOF" by (simp add: new_token_def)
qed

lemma reserved_text:
  assumes "kind t = TK_RESERVED" and "ispunct (str0 t)"
  shows "token_text t = [str0 t]"
proof (cases "str t")
  case Nil
  with assms(2) show ?thesis by (simp add: str0_def ispunct_def)
next
  case (Cons c cs)
  with assms(1) show ?thesis by (simp add: str0_def token_text_def)
qed

lemma consume_False:
  "consume op ts = Inr (False, ts1) \<Longrightarrow> ts1 = ts \<and> \<not> at_op [op] ts"
  by (cases ts) (auto simp: at_op_def split: if_splits)

lemma rest_head:
  "expr ts = Inr (n, r) \<Longrightarrow> \<not> at_op ''+-*/'' r"
  "expr_loop node ts = Inr (n, r) \<Longrightarrow>
     \<not> at_op ''+-'' r \<and> (\<not> at_op ''*/'' ts \<longrightarrow> \<not> at_op ''*/'' r)"
  "mul ts = Inr (n, r) \<Longrightarrow> \<not> at_op ''*/'' r"
  "mul_loop node ts = Inr (n, r) \<Longrightarrow> \<not> at_op ''*/'' r"
  "primary ts = Inr (n, r) \<Longrightarrow> True"
proof (induct ts and node ts and ts and node ts and ts
    arbitrary: n r and n r and n r and n r and n r
    rule: expr_expr_loop_mul_mul_loop_primary.induct)
  case (1 ts)
  from 1(3) obtain m ts1 where a: "mul ts = Inr (m, ts1)" and b: "expr_loop m ts1 = Inr (n, r)"
    by (auto simp: expr.simps [of ts] split: sum.splits prod.splits)
  from 1(1) [OF a] 1(2) [OF a refl b] show ?case
    by (simp add: at_op_def split: list.splits)
next
  case (2 node ts)
  note eq = expr_loop.simps [of node ts]
  show ?case
  proof (cases "consume CHR ''+'' ts")
    case (Inl e)
    with 2(5) show ?thesis by (simp add: eq)
  next
    case (Inr bt)
    obtain b ts1 where c1: "consume CHR ''+'' ts = Inr (b, ts1)"
      using Inr by (cases bt) simp
    show ?thesis
    proof (cases b)
      case True
      with 2(5) c1 obtain rhs ts2 where m: "mul ts1 = Inr (rhs, ts2)"
        and l: "expr_loop (new_binary ND_ADD node rhs) ts2 = Inr (n, r)"
        by (auto simp: eq split: sum.splits prod.splits)
      from 2(1) [OF c1 refl True m] 2(2) [OF c1 refl True m refl l]
      show ?thesis by simp
    next
      case False
      with consume_False [of "CHR ''+''" ts ts1] c1
      have same: "ts1 = ts" and n1: "\<not> at_op [CHR ''+''] ts" by simp_all
      show ?thesis
      proof (cases "consume CHR ''-'' ts1")
        case (Inl e)
        with 2(5) c1 False show ?thesis by (simp add: eq)
      next
        case (Inr bt')
        obtain b' ts2 where c2: "consume CHR ''-'' ts1 = Inr (b', ts2)"
          using Inr by (cases bt') simp
        show ?thesis
        proof (cases b')
          case True
          with 2(5) c1 c2 False obtain rhs ts3 where m: "mul ts2 = Inr (rhs, ts3)"
            and l: "expr_loop (new_binary ND_SUB node rhs) ts3 = Inr (n, r)"
            by (auto simp: eq split: sum.splits prod.splits)
          from 2(3) [OF c1 refl False c2 refl True m]
            2(4) [OF c1 refl False c2 refl True m refl l]
          show ?thesis by simp
        next
          case F2: False
          with 2(5) c1 c2 False have r: "r = ts2" by (simp add: eq)
          from consume_False [of "CHR ''-''" ts1 ts2] c2 F2
          have "ts2 = ts1" and "\<not> at_op [CHR ''-''] ts1" by simp_all
          with r same n1 show ?thesis by (simp add: at_op_def split: list.splits)
        qed
      qed
    qed
  qed
next
  case (3 ts)
  from 3(3) obtain m ts1 where a: "primary ts = Inr (m, ts1)" and b: "mul_loop m ts1 = Inr (n, r)"
    by (auto simp: mul.simps [of ts] split: sum.splits prod.splits)
  from 3(2) [OF a refl b] show ?case .
next
  case (4 node ts)
  note eq = mul_loop.simps [of node ts]
  show ?case
  proof (cases "consume CHR ''*'' ts")
    case (Inl e)
    with 4(5) show ?thesis by (simp add: eq)
  next
    case (Inr bt)
    obtain b ts1 where c1: "consume CHR ''*'' ts = Inr (b, ts1)"
      using Inr by (cases bt) simp
    show ?thesis
    proof (cases b)
      case True
      with 4(5) c1 obtain rhs ts2 where m: "mul ts1 = Inr (rhs, ts2)"
        and l: "mul_loop (new_binary ND_MUL node rhs) ts2 = Inr (n, r)"
        by (auto simp: eq split: sum.splits prod.splits)
      from 4(1) [OF c1 refl True m] 4(2) [OF c1 refl True m refl l]
      show ?thesis by simp
    next
      case False
      with consume_False [of "CHR ''*''" ts ts1] c1
      have same: "ts1 = ts" and n1: "\<not> at_op [CHR ''*''] ts" by simp_all
      show ?thesis
      proof (cases "consume CHR ''/'' ts1")
        case (Inl e)
        with 4(5) c1 False show ?thesis by (simp add: eq)
      next
        case (Inr bt')
        obtain b' ts2 where c2: "consume CHR ''/'' ts1 = Inr (b', ts2)"
          using Inr by (cases bt') simp
        show ?thesis
        proof (cases b')
          case True
          with 4(5) c1 c2 False obtain rhs ts3 where m: "mul ts2 = Inr (rhs, ts3)"
            and l: "mul_loop (new_binary ND_DIV node rhs) ts3 = Inr (n, r)"
            by (auto simp: eq split: sum.splits prod.splits)
          from 4(3) [OF c1 refl False c2 refl True m]
            4(4) [OF c1 refl False c2 refl True m refl l]
          show ?thesis by simp
        next
          case F2: False
          with 4(5) c1 c2 False have r: "r = ts2" by (simp add: eq)
          from consume_False [of "CHR ''/''" ts1 ts2] c2 F2
          have "ts2 = ts1" and "\<not> at_op [CHR ''/''] ts1" by simp_all
          with r same n1 show ?thesis by (simp add: at_op_def split: list.splits)
        qed
      qed
    qed
  qed
next
  case (5 ts)
  show ?case by simp
qed

lemma same_tokens_Nil: "same_tokens [] ts' = (ts' = [])"
  by (auto simp: same_tokens_def)

lemma same_tokens_Cons:
  "same_tokens (t # ts) ts' =
     (\<exists>t' r'. ts' = t' # r' \<and> token_view t = token_view t' \<and> same_tokens ts r')"
  by (cases ts') (auto simp: same_tokens_def)

lemma same_tokens_refl: "same_tokens ts ts"
  by (simp add: same_tokens_def)

lemma view_str0:
  assumes "token_view t = token_view t'" and "kind t = TK_RESERVED"
  shows "str0 t = str0 t'"
proof -
  from assms have "take 1 (str t) = take 1 (str t')"
    by (simp add: token_view_def token_text_def)
  then show ?thesis
    by (cases "str t"; cases "str t'") (simp_all add: str0_def)
qed

lemma view_kind: "token_view t = token_view t' \<Longrightarrow> kind t = kind t'"
  by (simp add: token_view_def)

lemma view_val: "token_view t = token_view t' \<Longrightarrow> val t = val t'"
  by (simp add: token_view_def)

lemma same_error_refl: "same_error e e"
  by (cases e) (simp_all add: same_error_def)

lemma same_bind:
  assumes "same_result res res'"
    and "\<And>n r r'. res = Inr (n, r) \<Longrightarrow> same_tokens r r' \<Longrightarrow> same_result (g n r) (g' n r')"
  shows "same_result (case res of Inl e \<Rightarrow> Inl e | Inr (n, r) \<Rightarrow> g n r)
     (case res' of Inl e \<Rightarrow> Inl e | Inr (n, r) \<Rightarrow> g' n r)"
proof (cases res)
  case (Inl e)
  with assms(1) show ?thesis by (auto simp: same_result_def split: sum.splits)
next
  case (Inr p)
  obtain n r where p: "p = (n, r)" by (cases p)
  with Inr assms(1) obtain r' where r': "res' = Inr (n, r')" and s: "same_tokens r r'"
    by (auto simp: same_result_def split: sum.splits)
  from assms(2) [OF _ s] Inr p have "same_result (g n r) (g' n r')" by simp
  with Inr p r' show ?thesis by simp
qed

lemma same_consume:
  assumes "same_tokens ts ts'"
    and "\<And>ts1 ts1'. consume op ts = Inr (True, ts1) \<Longrightarrow> same_tokens ts1 ts1' \<Longrightarrow>
       same_result (g True ts1) (g' True ts1')"
    and "consume op ts = Inr (False, ts) \<Longrightarrow> same_result (g False ts) (g' False ts')"
  shows "same_result (case consume op ts of Inl e \<Rightarrow> Inl e | Inr (b, ts1) \<Rightarrow> g b ts1)
     (case consume op ts' of Inl e \<Rightarrow> Inl e | Inr (b, ts1) \<Rightarrow> g' b ts1)"
proof (cases ts)
  case Nil
  with assms(1) have "ts' = []" by (simp add: same_tokens_Nil)
  with Nil show ?thesis by (simp add: same_result_def same_error_def)
next
  case (Cons t nxt)
  with assms(1) obtain t' nxt' where ts': "ts' = t' # nxt'"
    and v: "token_view t = token_view t'" and n: "same_tokens nxt nxt'"
    by (auto simp: same_tokens_Cons)
  show ?thesis
  proof (cases "kind t \<noteq> TK_RESERVED \<or> str0 t \<noteq> op")
    case True
    then have "kind t' \<noteq> TK_RESERVED \<or> str0 t' \<noteq> op"
      using view_kind [OF v] view_str0 [OF v] by auto
    with True Cons ts' assms(3) show ?thesis by simp
  next
    case False
    then have "\<not> (kind t' \<noteq> TK_RESERVED \<or> str0 t' \<noteq> op)"
      using view_kind [OF v] view_str0 [OF v] by auto
    with False Cons ts' assms(2) [of nxt nxt'] n show ?thesis by simp
  qed
qed

lemma same_expect:
  assumes "same_tokens ts ts'"
  shows "same_result (case expect op ts of Inl e \<Rightarrow> Inl e | Inr ts3 \<Rightarrow> Inr (node, ts3))
     (case expect op ts' of Inl e \<Rightarrow> Inl e | Inr ts3 \<Rightarrow> Inr (node, ts3))"
proof (cases ts)
  case Nil
  with assms have "ts' = []" by (simp add: same_tokens_Nil)
  with Nil show ?thesis by (simp add: same_result_def same_error_def)
next
  case (Cons t nxt)
  with assms obtain t' nxt' where ts': "ts' = t' # nxt'"
    and v: "token_view t = token_view t'" and n: "same_tokens nxt nxt'"
    by (auto simp: same_tokens_Cons)
  show ?thesis
  proof (cases "kind t \<noteq> TK_RESERVED \<or> str0 t \<noteq> op")
    case True
    then have "kind t' \<noteq> TK_RESERVED \<or> str0 t' \<noteq> op"
      using view_kind [OF v] view_str0 [OF v] by auto
    with True Cons ts' show ?thesis by (simp add: same_result_def same_error_def)
  next
    case False
    then have "\<not> (kind t' \<noteq> TK_RESERVED \<or> str0 t' \<noteq> op)"
      using view_kind [OF v] view_str0 [OF v] by auto
    with False Cons ts' n show ?thesis by (simp add: same_result_def)
  qed
qed

lemma same_expect_number:
  assumes "same_tokens ts ts'"
  shows "same_result (case expect_number ts of Inl e \<Rightarrow> Inl e | Inr (v, ts2) \<Rightarrow> Inr (new_num v, ts2))
     (case expect_number ts' of Inl e \<Rightarrow> Inl e | Inr (v, ts2) \<Rightarrow> Inr (new_num v, ts2))"
proof (cases ts)
  case Nil
  with assms have "ts' = []" by (simp add: same_tokens_Nil)
  with Nil show ?thesis by (simp add: same_result_def same_error_def)
next
  case (Cons t nxt)
  with assms obtain t' nxt' where ts': "ts' = t' # nxt'"
    and v: "token_view t = token_view t'" and n: "same_tokens nxt nxt'"
    by (auto simp: same_tokens_Cons)
  show ?thesis
    using Cons ts' n view_kind [OF v] view_val [OF v]
    by (simp add: same_result_def same_error_def)
qed

lemma parser_same:
  "same_tokens ts ts' \<Longrightarrow> same_result (expr ts) (expr ts')"
  "same_tokens ts ts' \<Longrightarrow> same_result (expr_loop node ts) (expr_loop node ts')"
  "same_tokens ts ts' \<Longrightarrow> same_result (mul ts) (mul ts')"
  "same_tokens ts ts' \<Longrightarrow> same_result (mul_loop node ts) (mul_loop node ts')"
  "same_tokens ts ts' \<Longrightarrow> same_result (primary ts) (primary ts')"
proof (induct ts and node ts and ts and node ts and ts
    arbitrary: ts' and ts' and ts' and ts' and ts'
    rule: expr_expr_loop_mul_mul_loop_primary.induct)
  case (1 ts)
  show ?case
    apply (simp only: expr.simps [of ts] expr.simps [of ts'])
    apply (rule same_bind)
     apply (rule 1(1) [OF 1(3)])
    apply (erule 1(2) [OF _ refl])
    apply assumption
    done
next
  case (2 node ts)
  show ?case
    apply (simp only: expr_loop.simps [of node ts] expr_loop.simps [of node ts'])
    apply (rule same_consume [OF 2(5)])
     apply (simp only: if_True)
     apply (rule same_bind)
      apply (erule 2(1) [OF _ refl], simp, assumption)
     apply (erule 2(2) [OF _ refl _ _ refl], simp, assumption, assumption)
    apply (simp only: if_False)
    apply (rule same_consume [OF 2(5)])
     apply (simp only: if_True)
     apply (rule same_bind)
      apply (erule 2(3) [OF _ refl _ _ refl], simp, assumption, simp, assumption)
     apply (erule 2(4) [OF _ refl _ _ refl _ _ refl], simp, assumption, simp, assumption,
        assumption)
    apply (simp add: same_result_def 2(5))
    done
next
  case (3 ts)
  show ?case
    apply (simp only: mul.simps [of ts] mul.simps [of ts'])
    apply (rule same_bind)
     apply (rule 3(1) [OF 3(3)])
    apply (erule 3(2) [OF _ refl])
    apply assumption
    done
next
  case (4 node ts)
  show ?case
    apply (simp only: mul_loop.simps [of node ts] mul_loop.simps [of node ts'])
    apply (rule same_consume [OF 4(5)])
     apply (simp only: if_True)
     apply (rule same_bind)
      apply (erule 4(1) [OF _ refl], simp, assumption)
     apply (erule 4(2) [OF _ refl _ _ refl], simp, assumption, assumption)
    apply (simp only: if_False)
    apply (rule same_consume [OF 4(5)])
     apply (simp only: if_True)
     apply (rule same_bind)
      apply (erule 4(3) [OF _ refl _ _ refl], simp, assumption, simp, assumption)
     apply (erule 4(4) [OF _ refl _ _ refl _ _ refl], simp, assumption, simp, assumption,
        assumption)
    apply (simp add: same_result_def 4(5))
    done
next
  case (5 ts)
  show ?case
    apply (simp only: primary.simps [of ts] primary.simps [of ts'])
    apply (rule same_consume [OF 5(2)])
     apply (simp only: if_True)
     apply (rule same_bind)
      apply (erule 5(1) [OF _ refl], simp, assumption)
     apply (erule same_expect)
    apply (simp only: if_False)
    apply (rule same_expect_number [OF 5(2)])
    done
qed

lemma same_lex_refl: "same_lex res res"
  by (cases res) (simp_all add: same_lex_def same_tokens_refl)

lemma same_lex_Cons:
  assumes "same_lex res res'" and "token_view t = token_view t'"
  shows "same_lex (case res of Inl e \<Rightarrow> Inl e | Inr ts \<Rightarrow> Inr (t # ts))
     (case res' of Inl e \<Rightarrow> Inl e | Inr ts \<Rightarrow> Inr (t' # ts))"
  using assms by (cases res) (auto simp: same_lex_def same_tokens_Cons)

lemma span_digits_append:
  assumes "(\<forall>y\<in>set xs. isdigit y) \<longrightarrow> b = [] \<or> \<not> isdigit (hd b)"
  shows "takeWhile isdigit (xs @ b) = takeWhile isdigit xs"
    and "dropWhile isdigit (xs @ b) = dropWhile isdigit xs @ b"
  using assms by (induction xs) (auto simp: takeWhile_eq_Nil_iff dropWhile_eq_self_iff)

lemma boundary_tail:
  assumes "\<not> (x # xs \<noteq> [] \<and> isdigit (last (x # xs)) \<and> b \<noteq> [] \<and> isdigit (hd b))"
  shows "\<not> (xs \<noteq> [] \<and> isdigit (last xs) \<and> b \<noteq> [] \<and> isdigit (hd b))"
  using assms by auto

lemma boundary_dropWhile:
  assumes "\<not> (x # xs \<noteq> [] \<and> isdigit (last (x # xs)) \<and> b \<noteq> [] \<and> isdigit (hd b))"
  shows "\<not> (dropWhile isdigit xs \<noteq> [] \<and> isdigit (last (dropWhile isdigit xs)) \<and>
     b \<noteq> [] \<and> isdigit (hd b))"
proof (cases "dropWhile isdigit xs = []")
  case True
  then show ?thesis by simp
next
  case False
  have "xs = takeWhile isdigit xs @ dropWhile isdigit xs" by simp
  with False have "last xs = last (dropWhile isdigit xs)"
    by (metis last_appendR)
  moreover from False have "xs \<noteq> []" by auto
  ultimately show ?thesis using assms by auto
qed

lemma boundary_all_digits:
  assumes "\<not> (x # xs \<noteq> [] \<and> isdigit (last (x # xs)) \<and> b \<noteq> [] \<and> isdigit (hd b))"
    and "isdigit x"
  shows "(\<forall>y\<in>set xs. isdigit y) \<longrightarrow> b = [] \<or> \<not> isdigit (hd b)"
proof
  assume a: "\<forall>y\<in>set xs. isdigit y"
  have "last (x # xs) \<in> set (x # xs)" by (rule last_in_set) simp
  with a assms(2) have "isdigit (last (x # xs))" by auto
  with assms(1) show "b = [] \<or> \<not> isdigit (hd b)" by auto
qed

lemma tokenize_digit:
  assumes "isdigit x"
  shows "tokenize (x # xs) =
     (case tokenize (dropWhile isdigit xs) of Inl e \<Rightarrow> Inl e
      | Inr ts \<Rightarrow> Inr ((new_token TK_NUM (x # xs))\<lparr>val := fst (strtol (x # xs))\<rparr> # ts))"
proof -
  obtain v p' where st: "strtol (x # xs) = (v, p')" by (cases "strtol (x # xs)")
  with assms strtol_rest [of x xs] have "p' = dropWhile isdigit xs" by simp
  with st assms digit_not_space [OF assms] digit_not_punct [OF assms]
  show ?thesis by (simp split: sum.splits)
qed

lemma strtol_value:
  "takeWhile isdigit p = takeWhile isdigit q \<Longrightarrow> fst (strtol p) = fst (strtol q)"
  by (simp add: strtol_def Let_def)

lemma tokenize_insert_space:
  assumes "isspace c"
  shows "\<not> (a \<noteq> [] \<and> isdigit (last a) \<and> b \<noteq> [] \<and> isdigit (hd b)) \<Longrightarrow>
     same_lex (tokenize (a @ b)) (tokenize (a @ c # b))"
proof (induction a rule: tokenize.induct)
  case 1
  from assms show ?case by (simp add: same_lex_refl)
next
  case (2 x xs)
  note tail = boundary_tail [OF 2(4)]
  show ?case
  proof (cases "isspace x")
    case True
    with 2(1) [OF True tail] show ?thesis by simp
  next
    case ns: False
    show ?thesis
    proof (cases "ispunct x")
      case True
      have v: "token_view (new_token TK_RESERVED (x # xs @ b)) =
          token_view (new_token TK_RESERVED (x # xs @ c # b))"
        by (simp add: token_view_def token_text_def new_token_def)
      from same_lex_Cons [OF 2(2) [OF ns True tail] v] ns True show ?thesis by simp
    next
      case np: False
      show ?thesis
      proof (cases "isdigit x")
        case True
        obtain v p' where st: "strtol (x # xs) = (v, p')" by (cases "strtol (x # xs)")
        with True strtol_rest [of x xs] have p': "p' = dropWhile isdigit xs" by simp
        from 2(3) [OF ns np True st [symmetric]] boundary_dropWhile [OF 2(4)] p'
        have ih: "same_lex (tokenize (dropWhile isdigit xs @ b))
            (tokenize (dropWhile isdigit xs @ c # b))" by simp
        note l = span_digits_append [OF boundary_all_digits [OF 2(4) True]]
        have "(\<forall>y\<in>set xs. isdigit y) \<longrightarrow> c # b = [] \<or> \<not> isdigit (hd (c # b))"
          using assms digit_not_space by auto
        note r = span_digits_append [OF this]
        have tw: "takeWhile isdigit (x # xs @ b) = takeWhile isdigit (x # xs @ c # b)"
          using True l(1) r(1) by simp
        have v: "token_view ((new_token TK_NUM (x # xs @ b))\<lparr>val := fst (strtol (x # xs @ b))\<rparr>) =
            token_view ((new_token TK_NUM (x # xs @ c # b))\<lparr>val := fst (strtol (x # xs @ c # b))\<rparr>)"
          using tw strtol_value [OF tw]
          by (simp add: token_view_def token_text_def new_token_def)
        have e1: "tokenize ((x # xs) @ b) =
            (case tokenize (dropWhile isdigit xs @ b) of Inl e \<Rightarrow> Inl e
             | Inr ts \<Rightarrow> Inr ((new_token TK_NUM (x # xs @ b))\<lparr>val := fst (strtol (x # xs @ b))\<rparr> # ts))"
          using tokenize_digit [OF True, of "xs @ b"] by (simp add: l)
        have e2: "tokenize ((x # xs) @ c # b) =
            (case tokenize (dropWhile isdigit xs @ c # b) of Inl e \<Rightarrow> Inl e
             | Inr ts \<Rightarrow> Inr ((new_token TK_NUM (x # xs @ c # b))\<lparr>val := fst (strtol (x # xs @ c # b))\<rparr> # ts))"
          using tokenize_digit [OF True, of "xs @ c # b"] by (simp add: r)
        show ?thesis
          unfolding e1 e2 by (rule same_lex_Cons [OF ih v])
      next
        case False
        with ns np show ?thesis by (simp add: same_lex_def)
      qed
    qed
  qed
qed

lemma same_lex_sym: "same_lex res res' \<Longrightarrow> same_lex res' res"
  by (cases res; cases res') (auto simp: same_lex_def same_tokens_def)

lemma same_lex_trans: "same_lex r1 r2 \<Longrightarrow> same_lex r2 r3 \<Longrightarrow> same_lex r1 r3"
  by (cases r1; cases r2; cases r3) (auto simp: same_lex_def same_tokens_def)

lemma ws_equiv_same_lex: "ws_equiv s s' \<Longrightarrow> same_lex (tokenize s) (tokenize s')"
proof (induction rule: ws_equiv.induct)
  case (same s)
  show ?case by (rule same_lex_refl)
next
  case (space c a b)
  then show ?case by (rule tokenize_insert_space)
next
  case (swap s t)
  then show ?case by (simp add: same_lex_sym)
next
  case (chain s t u)
  then show ?case by (blast intro: same_lex_trans)
qed

lemma same_lex_main:
  assumes "same_lex (tokenize s) (tokenize s')"
  shows "out (main [a, s]) = out (main [a', s'])"
    and "status (main [a, s]) = status (main [a', s'])"
proof -
  have "out (main [a, s]) = out (main [a', s']) \<and> status (main [a, s]) = status (main [a', s'])"
  proof (cases "tokenize s")
    case (Inl e)
    with assms obtain e' where e': "tokenize s' = Inl e'" by (auto simp: same_lex_def)
    from tokenize_error [OF Inl] tokenize_error [OF e'] Inl e' show ?thesis
      by (auto simp: main_def error_at_def)
  next
    case (Inr ts)
    with assms obtain ts' where t': "tokenize s' = Inr ts'" and st: "same_tokens ts ts'"
      by (auto simp: same_lex_def)
    from parser_same(1) [OF st] have sr: "same_result (expr ts) (expr ts')" .
    show ?thesis
    proof (cases "expr ts")
      case (Inl e)
      with sr obtain e' where e': "expr ts' = Inl e'" and se: "same_error e e'"
        by (auto simp: same_result_def split: sum.splits)
      from se have "out (die s e) = out (die s' e') \<and> status (die s e) = status (die s' e')"
        by (cases e) (auto simp: same_error_def error_at_def)
      with Inr t' Inl e' show ?thesis by (simp add: main_def)
    next
      case (Inr p)
      obtain n r where p: "p = (n, r)" by (cases p)
      with Inr sr obtain r' where "expr ts' = Inr (n, r')"
        by (auto simp: same_result_def split: sum.splits)
      with Inr p \<open>tokenize s = Inr ts\<close> t' show ?thesis by (simp add: main_def)
    qed
  qed
  then show "out (main [a, s]) = out (main [a', s'])"
    and "status (main [a, s]) = status (main [a', s'])" by simp_all
qed








lemma stops_prefix: "p \<noteq> [] \<Longrightarrow> \<not> at_op ''+-*/'' (p @ r) \<Longrightarrow> stops (p @ x)"
  by (cases p) (auto simp: stops_def at_op_def)





section \<open>The parser's primitives\<close>

text \<open>
  C7. With a current token (\<open>token\<close> not NULL), \<open>consume\<close> is a conditional advance that
  never fails: when the current token is a \<open>TK_RESERVED\<close> token whose first character
  is the expected one, it returns true and the cursor is the next token; otherwise it
  returns false and the cursor is the one it was called with.
\<close>

theorem consume_conditional_advance:
  "ts = t # nxt \<Longrightarrow>
     (kind t = TK_RESERVED \<and> str0 t = op \<longrightarrow> consume op ts = Inr (True, nxt)) \<and>
     (\<not> (kind t = TK_RESERVED \<and> str0 t = op) \<longrightarrow> consume op ts = Inr (False, ts))"
  by auto

theorem consume_conditional_advance_witness:
  "consume CHR ''+'' [new_token TK_RESERVED ''+2'', new_token TK_EOF []]
     = Inr (True, [new_token TK_EOF []]) \<and>
   consume CHR ''-'' [new_token TK_RESERVED ''+2'', new_token TK_EOF []]
     = Inr (False, [new_token TK_RESERVED ''+2'', new_token TK_EOF []])"
proof -
  have h: "[new_token TK_RESERVED ''+2'', new_token TK_EOF []]
      = new_token TK_RESERVED ''+2'' # [new_token TK_EOF []]"
    by simp
  from consume_conditional_advance [OF h, of "CHR ''+''"]
    consume_conditional_advance [OF h, of "CHR ''-''"]
  show ?thesis by (simp add: new_token_def str0_def)
qed

section \<open>Precedence and associativity\<close>

text \<open>
  C1. The claim: the emitted program computes the value of the source expression under
  the usual rules, operators of equal precedence taken left to right. On \<open>8/2*2\<close>
  (usual value \<open>(8/2)*2 = 8\<close>) \<open>mul\<close> parses its right operand with \<open>mul\<close> and builds
  \<open>8/(2*2)\<close>; the program returns 2.
\<close>

theorem mixed_mul_div_not_left_to_right:
  "parse ''8/2*2'' = Inr (Binary ND_DIV (ND_NUM 8) (Binary ND_MUL (ND_NUM 2) (ND_NUM 2))) \<and>
   run (Binary ND_DIV (ND_NUM 8) (Binary ND_MUL (ND_NUM 2) (ND_NUM 2))) m = Some 2"
proof
  show "parse ''8/2*2'' = Inr (Binary ND_DIV (ND_NUM 8) (Binary ND_MUL (ND_NUM 2) (ND_NUM 2)))"
    by (simp add: parse_def lex_eval parse_eval)
  show "run (Binary ND_DIV (ND_NUM 8) (Binary ND_MUL (ND_NUM 2) (ND_NUM 2))) m = Some 2"
    by (simp add: run_def program_def Let_def tdiv_def)
qed

text \<open>
  C2. The claim: a chain of operators of one precedence level folds left, so the program
  for \<open>20/4/5\<close> computes 1. \<open>mul\<close> builds \<open>20/(4/5)\<close>, and the program divides by
  \<open>4/5 = 0\<close>: it stops with a divide error.
\<close>

theorem mul_chain_folds_right:
  "parse ''20/4/5'' = Inr (Binary ND_DIV (ND_NUM 20) (Binary ND_DIV (ND_NUM 4) (ND_NUM 5))) \<and>
   run (Binary ND_DIV (ND_NUM 20) (Binary ND_DIV (ND_NUM 4) (ND_NUM 5))) m = None"
proof
  show "parse ''20/4/5'' = Inr (Binary ND_DIV (ND_NUM 20) (Binary ND_DIV (ND_NUM 4) (ND_NUM 5)))"
    by (simp add: parse_def lex_eval parse_eval)
  show "run (Binary ND_DIV (ND_NUM 20) (Binary ND_DIV (ND_NUM 4) (ND_NUM 5))) m = None"
    by (simp add: run_def program_def Let_def tdiv_def)
qed

section \<open>Integer literals\<close>

text \<open>
  C3. The claim: the value in the \<open>ND_NUM\<close> node is the decimal value of the digit run,
  for every literal that fits 64 bits. \<open>new_num\<close> takes an \<open>int\<close>: the literal
  \<open>2147483648\<close> is stored, and pushed, as \<open>-2147483648\<close>.
\<close>

theorem literal_truncated_to_int:
  "parse ''2147483648'' = Inr (ND_NUM (- 2147483648)) \<and>
   out (main [''9cc'', ''2147483648'']) =
     [''.intel_syntax noprefix'', ''.global main'', ''main:'', ''  push -2147483648'',
      ''  pop rax'', ''  ret'']"
proof
  show "parse ''2147483648'' = Inr (ND_NUM (- 2147483648))"
    by (simp add: parse_def lex_eval parse_eval)
  show "out (main [''9cc'', ''2147483648'']) =
     [''.intel_syntax noprefix'', ''.global main'', ''main:'', ''  push -2147483648'',
      ''  pop rax'', ''  ret'']"
    by (simp add: main_def lex_eval parse_eval gen_eval)
qed

section \<open>The operand stack\<close>

text \<open>
  C9. The code of every tree moves the stack by exactly one slot: a number is one push; a
  binary node is the code of the left child, the code of the right child, two pops, the
  operator's instructions (\<open>cqo\<close> before \<open>idiv\<close> for a division) and one push. The
  text \<open>gen\<close> prints is the text of these instructions. Run from any machine state, the
  code faults only when the tree's value is a divide error, and otherwise leaves one
  value above the stack it started with; the epilogue pops it into \<open>rax\<close> and the stack
  is as it was on entry.
\<close>

theorem gen_net_stack_effect:
  "gen node = map asm (gen_code node) \<and>
   net_effect (gen_code node) = 1 \<and>
   gen_code (ND_NUM v) = [PUSH_IMM v] \<and>
   gen_code (Binary k lhs rhs) =
     gen_code lhs @ gen_code rhs @ [POP_RDI, POP_RAX] @
     (case k of ND_ADD \<Rightarrow> [ADD] | ND_SUB \<Rightarrow> [SUB] | ND_MUL \<Rightarrow> [IMUL]
      | ND_DIV \<Rightarrow> [CQO, IDIV]) @
     [PUSH_RAX] \<and>
   (\<forall>m. (exec (gen_code node) m = None) = (node_value node = None)) \<and>
   (\<forall>m m'. exec (gen_code node) m = Some m' \<longrightarrow> (\<exists>v. stack m' = v # stack m)) \<and>
   (\<forall>m m'. exec (program node) m = Some m' \<longrightarrow>
      stack m' = stack m \<and> node_value node = Some (rax m'))"
proof -
  have a: "\<forall>m. (exec (gen_code node) m = None) = (node_value node = None)"
  proof
    fix m
    show "(exec (gen_code node) m = None) = (node_value node = None)"
      using exec_gen_code [of node m] by (auto split: option.splits)
  qed
  have b: "\<forall>m m'. exec (gen_code node) m = Some m' \<longrightarrow> (\<exists>v. stack m' = v # stack m)"
  proof (intro allI impI)
    fix m m'
    assume "exec (gen_code node) m = Some m'"
    then show "\<exists>v. stack m' = v # stack m"
      using exec_gen_code [of node m] by (auto split: option.splits)
  qed
  have c: "\<forall>m m'. exec (program node) m = Some m' \<longrightarrow>
      stack m' = stack m \<and> node_value node = Some (rax m')"
  proof (intro allI impI)
    fix m m'
    assume "exec (program node) m = Some m'"
    then show "stack m' = stack m \<and> node_value node = Some (rax m')"
      using exec_gen_code [of node m]
      by (auto simp: program_def exec_append split: option.splits)
  qed
  show ?thesis
    using a b c by (simp add: gen_lines net_effect_gen_code)
qed

theorem gen_net_stack_effect_witness:
  "exec (gen_code (Binary ND_ADD (ND_NUM 1) (ND_NUM 2))) \<lparr>rax = 0, rdi = 0, rdx = 0, stack = [7]\<rparr>
     = Some \<lparr>rax = 3, rdi = 2, rdx = 0, stack = [3, 7]\<rparr> \<and>
   exec (program (Binary ND_ADD (ND_NUM 1) (ND_NUM 2))) \<lparr>rax = 0, rdi = 0, rdx = 0, stack = [7]\<rparr>
     = Some \<lparr>rax = 3, rdi = 2, rdx = 0, stack = [7]\<rparr> \<and>
   (\<exists>v. stack \<lparr>rax = 3, rdi = 2, rdx = 0, stack = [3, 7]\<rparr>
      = v # stack \<lparr>rax = 0 :: long, rdi = 0, rdx = 0, stack = [7]\<rparr>) \<and>
   node_value (Binary ND_ADD (ND_NUM 1) (ND_NUM 2)) = Some 3"
proof -
  have e: "exec (gen_code (Binary ND_ADD (ND_NUM 1) (ND_NUM 2)))
      \<lparr>rax = 0, rdi = 0, rdx = 0, stack = [7]\<rparr>
     = Some \<lparr>rax = 3, rdi = 2, rdx = 0, stack = [3, 7]\<rparr>"
    by simp
  have p: "exec (program (Binary ND_ADD (ND_NUM 1) (ND_NUM 2)))
      \<lparr>rax = 0, rdi = 0, rdx = 0, stack = [7]\<rparr>
     = Some \<lparr>rax = 3, rdi = 2, rdx = 0, stack = [7]\<rparr>"
    by (simp add: program_def)
  from gen_net_stack_effect [of "Binary ND_ADD (ND_NUM 1) (ND_NUM 2)"] e p
  show ?thesis by auto
qed

section \<open>The empty expression\<close>

text \<open>
  C10. For a source that is empty or all white space, \<open>tokenize\<close> returns the \<open>TK_EOF\<close>
  token alone, and the process ends with status 1, nothing on standard output, and on
  standard error the source line and \<open>expected a number\<close> with its caret at the end of
  the input.
\<close>

theorem empty_source_rejected:
  "\<forall>c\<in>set s. isspace c \<Longrightarrow>
     tokenize s = Inr [new_token TK_EOF []] \<and>
     main [a, s] =
       \<lparr>out = [], err = [s, replicate (length s) CHR '' '' @ ''^ expected a number''],
        status = 1\<rparr>"
  by (simp add: tokenize_spaces main_def expr.simps mul.simps primary.simps new_token_def
      error_at_def)

theorem empty_source_rejected_witness:
  "isspace CHR '' '' \<and>
   tokenize '' '' = Inr [new_token TK_EOF []] \<and>
   main [''9cc'', '' ''] = \<lparr>out = [], err = ['' '', '' ^ expected a number''], status = 1\<rparr>"
proof -
  have h: "\<forall>c\<in>set '' ''. isspace c" by (simp add: isspace_def)
  from empty_source_rejected [OF h, of "''9cc''"] h show ?thesis by simp
qed

section \<open>The token stream\<close>

text \<open>
  C5. \<open>tokenize\<close> is a total function; it succeeds exactly on the sources made of white
  space, punctuation and digits. What it then returns ends with the \<open>TK_EOF\<close> token,
  the only one of its kind; every punctuation character has its one-character
  \<open>TK_RESERVED\<close> token and every maximal digit run its \<open>TK_NUM\<close> token, and there is no
  other token: the texts of the tokens, in order, are the source without its white space.
\<close>

theorem tokenize_stream:
  "((\<exists>ts. tokenize s = Inr ts) = (\<forall>c\<in>set s. isspace c \<or> ispunct c \<or> isdigit c)) \<and>
   (tokenize s = Inr ts \<longrightarrow>
     (\<exists>body. ts = body @ [new_token TK_EOF []] \<and> (\<forall>t\<in>set body. kind t \<noteq> TK_EOF)) \<and>
     kind (last ts) = TK_EOF \<and>
     length (filter (\<lambda>t. kind t = TK_EOF) ts) = 1 \<and>
     (\<forall>t\<in>set ts. kind t = TK_RESERVED \<longrightarrow> ispunct (str0 t) \<and> token_text t = [str0 t]) \<and>
     length (filter (\<lambda>t. kind t = TK_RESERVED) ts) = length (filter ispunct s) \<and>
     length (filter (\<lambda>t. kind t = TK_NUM) ts) = digit_runs False s \<and>
     length ts = length (filter ispunct s) + digit_runs False s + 1 \<and>
     concat (map token_text ts) = filter (\<lambda>c. \<not> isspace c) s)"
proof (intro conjI impI)
  show "(\<exists>ts. tokenize s = Inr ts) = (\<forall>c\<in>set s. isspace c \<or> ispunct c \<or> isdigit c)"
    by (rule tokenize_succeeds)
next
  assume t: "tokenize s = Inr ts"
  from tokenize_lexed [OF t] have
    1: "\<exists>body. ts = body @ [new_token TK_EOF []] \<and> (\<forall>t\<in>set body. kind t \<noteq> TK_EOF)"
    and 3: "\<forall>t\<in>set ts. kind t = TK_RESERVED \<longrightarrow> ispunct (str0 t)"
    and 4: "length (filter (\<lambda>t. kind t = TK_RESERVED) ts) = length (filter ispunct s)"
    and 5: "length (filter (\<lambda>t. kind t = TK_NUM) ts) = digit_runs False s"
    and 6: "concat (map token_text ts) = filter (\<lambda>c. \<not> isspace c) s"
    unfolding lexed_def by simp_all
  from 1 obtain body where b: "ts = body @ [new_token TK_EOF []]"
    and nb: "\<forall>t\<in>set body. kind t \<noteq> TK_EOF" by blast
  show "\<exists>body. ts = body @ [new_token TK_EOF []] \<and> (\<forall>t\<in>set body. kind t \<noteq> TK_EOF)"
    by (rule 1)
  show l: "kind (last ts) = TK_EOF" by (rule one_eof(2) [OF b nb])
  show e: "length (filter (\<lambda>t. kind t = TK_EOF) ts) = 1" by (rule one_eof(1) [OF b nb])
  show "\<forall>t\<in>set ts. kind t = TK_RESERVED \<longrightarrow> ispunct (str0 t) \<and> token_text t = [str0 t]"
    using 3 reserved_text by blast
  show "length (filter (\<lambda>t. kind t = TK_RESERVED) ts) = length (filter ispunct s)" by (rule 4)
  show "length (filter (\<lambda>t. kind t = TK_NUM) ts) = digit_runs False s" by (rule 5)
  show "length ts = length (filter ispunct s) + digit_runs False s + 1"
    using length_by_kind [of ts] 4 5 e by simp
  show "concat (map token_text ts) = filter (\<lambda>c. \<not> isspace c) s" by (rule 6)
qed

theorem tokenize_stream_witness:
  "tokenize '' 12 +(3'' =
     Inr [\<lparr>kind = TK_NUM, val = 12, str = ''12 +(3''\<rparr>,
          \<lparr>kind = TK_RESERVED, val = 0, str = ''+(3''\<rparr>,
          \<lparr>kind = TK_RESERVED, val = 0, str = ''(3''\<rparr>,
          \<lparr>kind = TK_NUM, val = 3, str = ''3''\<rparr>,
          \<lparr>kind = TK_EOF, val = 0, str = []\<rparr>] \<and>
   length (filter ispunct '' 12 +(3'') = 2 \<and> digit_runs False '' 12 +(3'' = 2 \<and>
   filter (\<lambda>c. \<not> isspace c) '' 12 +(3'' = ''12+(3''"
proof -
  have t: "tokenize '' 12 +(3'' =
     Inr [\<lparr>kind = TK_NUM, val = 12, str = ''12 +(3''\<rparr>,
          \<lparr>kind = TK_RESERVED, val = 0, str = ''+(3''\<rparr>,
          \<lparr>kind = TK_RESERVED, val = 0, str = ''(3''\<rparr>,
          \<lparr>kind = TK_NUM, val = 3, str = ''3''\<rparr>,
          \<lparr>kind = TK_EOF, val = 0, str = []\<rparr>]"
    by (simp add: lex_eval)
  from tokenize_stream [of "'' 12 +(3''", THEN conjunct2, rule_format, OF t]
  show ?thesis
    unfolding t by (simp add: token_text_def lex_eval)
qed

section \<open>Error reports\<close>




section \<open>Tokens after the expression\<close>

text \<open>
  C4, as claimed: \<open>1+2)\<close> is rejected with a syntax error. It is accepted, and compiled
  as \<open>1+2\<close>.
\<close>

theorem trailing_paren_accepted:
  "main [''9cc'', ''1+2)''] =
     \<lparr>out = [''.intel_syntax noprefix'', ''.global main'', ''main:'', ''  push 1'', ''  push 2'',
             ''  pop rdi'', ''  pop rax'', ''  add rax, rdi'', ''  push rax'', ''  pop rax'',
             ''  ret''],
      err = [], status = 0\<rparr>"
  by (simp add: main_def lex_eval parse_eval gen_eval)

text \<open>
  C4, amended. \<open>expr\<close> parses a prefix of the token stream and returns with the cursor
  on the first token that does not continue the expression, a token that is not one of
  the four operators but need not be \<open>TK_EOF\<close>; \<open>main\<close> does not look at the cursor
  and prints the assembly of the tree with status 0.
\<close>

theorem expr_leaves_trailing_tokens:
  "tokenize s = Inr ts \<Longrightarrow> expr ts = Inr (node, rest) \<Longrightarrow>
     suffix rest ts \<and> ends_eof rest \<and> \<not> at_op ''+-*/'' rest \<and>
     main [a, s] =
       \<lparr>out = [''.intel_syntax noprefix'', ''.global main'', ''main:''] @ gen node @
              [''  pop rax'', ''  ret''],
        err = [], status = 0\<rparr>"
proof -
  assume t: "tokenize s = Inr ts" and e: "expr ts = Inr (node, rest)"
  from parser_ok(1) [OF lexed_ends_eof [OF tokenize_lexed [OF t]]] e
  have "suffix rest ts" and "ends_eof rest" by (simp_all add: parsed_ok_def)
  moreover from rest_head(1) [OF e] have "\<not> at_op ''+-*/'' rest" .
  moreover from t e have "main [a, s] =
       \<lparr>out = [''.intel_syntax noprefix'', ''.global main'', ''main:''] @ gen node @
              [''  pop rax'', ''  ret''],
        err = [], status = 0\<rparr>"
    by (simp add: main_def)
  ultimately show ?thesis by simp
qed

theorem expr_leaves_trailing_tokens_witness:
  "tokenize ''1+2)'' =
     Inr [\<lparr>kind = TK_NUM, val = 1, str = ''1+2)''\<rparr>, \<lparr>kind = TK_RESERVED, val = 0, str = ''+2)''\<rparr>,
          \<lparr>kind = TK_NUM, val = 2, str = ''2)''\<rparr>, \<lparr>kind = TK_RESERVED, val = 0, str = '')''\<rparr>,
          \<lparr>kind = TK_EOF, val = 0, str = []\<rparr>] \<and>
   expr [\<lparr>kind = TK_NUM, val = 1, str = ''1+2)''\<rparr>, \<lparr>kind = TK_RESERVED, val = 0, str = ''+2)''\<rparr>,
         \<lparr>kind = TK_NUM, val = 2, str = ''2)''\<rparr>, \<lparr>kind = TK_RESERVED, val = 0, str = '')''\<rparr>,
         \<lparr>kind = TK_EOF, val = 0, str = []\<rparr>] =
     Inr (Binary ND_ADD (ND_NUM 1) (ND_NUM 2),
          [\<lparr>kind = TK_RESERVED, val = 0, str = '')''\<rparr>, \<lparr>kind = TK_EOF, val = 0, str = []\<rparr>]) \<and>
   \<not> at_op ''+-*/'' [\<lparr>kind = TK_RESERVED, val = 0, str = '')''\<rparr>, \<lparr>kind = TK_EOF, val = 0, str = []\<rparr>] \<and>
   status (main [''9cc'', ''1+2)'']) = 0 \<and>
   out (main [''9cc'', ''1+2)'']) =
     [''.intel_syntax noprefix'', ''.global main'', ''main:''] @
     gen (Binary ND_ADD (ND_NUM 1) (ND_NUM 2)) @ [''  pop rax'', ''  ret'']"
proof -
  have t: "tokenize ''1+2)'' =
     Inr [\<lparr>kind = TK_NUM, val = 1, str = ''1+2)''\<rparr>, \<lparr>kind = TK_RESERVED, val = 0, str = ''+2)''\<rparr>,
          \<lparr>kind = TK_NUM, val = 2, str = ''2)''\<rparr>, \<lparr>kind = TK_RESERVED, val = 0, str = '')''\<rparr>,
          \<lparr>kind = TK_EOF, val = 0, str = []\<rparr>]"
    by (simp add: lex_eval)
  have e: "expr [\<lparr>kind = TK_NUM, val = 1, str = ''1+2)''\<rparr>, \<lparr>kind = TK_RESERVED, val = 0, str = ''+2)''\<rparr>,
         \<lparr>kind = TK_NUM, val = 2, str = ''2)''\<rparr>, \<lparr>kind = TK_RESERVED, val = 0, str = '')''\<rparr>,
         \<lparr>kind = TK_EOF, val = 0, str = []\<rparr>] =
     Inr (Binary ND_ADD (ND_NUM 1) (ND_NUM 2),
          [\<lparr>kind = TK_RESERVED, val = 0, str = '')''\<rparr>, \<lparr>kind = TK_EOF, val = 0, str = []\<rparr>])"
    by (simp add: parse_eval)
  from expr_leaves_trailing_tokens [OF t e, of "''9cc''"] t e
  show ?thesis by simp
qed

section \<open>White space\<close>

text \<open>
  C8. For two sources that differ only in the white space between tokens, \<open>tokenize\<close>
  fails on both or returns token lists with the same kinds, values and texts in the same
  order, and the two runs of the process print the same lines on standard output and end
  with the same status.
\<close>

theorem whitespace_insignificant:
  "ws_equiv s s' \<Longrightarrow>
     (case tokenize s of
        Inl e \<Rightarrow> (\<exists>e'. tokenize s' = Inl e')
      | Inr ts \<Rightarrow> (\<exists>ts'. tokenize s' = Inr ts' \<and> map token_view ts = map token_view ts')) \<and>
     out (main [a, s]) = out (main [a, s']) \<and>
     status (main [a, s]) = status (main [a, s'])"
proof -
  assume "ws_equiv s s'"
  then have l: "same_lex (tokenize s) (tokenize s')" by (rule ws_equiv_same_lex)
  from same_lex_main [OF l, of a a] l [unfolded same_lex_def same_tokens_def]
  show ?thesis by simp
qed

theorem whitespace_insignificant_witness:
  "ws_equiv ''1+2'' '' 1 +  2 '' \<and>
   tokenize ''1+2'' =
     Inr [\<lparr>kind = TK_NUM, val = 1, str = ''1+2''\<rparr>, \<lparr>kind = TK_RESERVED, val = 0, str = ''+2''\<rparr>,
          \<lparr>kind = TK_NUM, val = 2, str = ''2''\<rparr>, \<lparr>kind = TK_EOF, val = 0, str = []\<rparr>] \<and>
   tokenize '' 1 +  2 '' =
     Inr [\<lparr>kind = TK_NUM, val = 1, str = ''1 +  2 ''\<rparr>, \<lparr>kind = TK_RESERVED, val = 0, str = ''+  2 ''\<rparr>,
          \<lparr>kind = TK_NUM, val = 2, str = ''2 ''\<rparr>, \<lparr>kind = TK_EOF, val = 0, str = []\<rparr>] \<and>
   out (main [''9cc'', ''1+2'']) = out (main [''9cc'', '' 1 +  2 '']) \<and>
   out (main [''9cc'', ''1+2'']) =
     [''.intel_syntax noprefix'', ''.global main'', ''main:'', ''  push 1'', ''  push 2'',
      ''  pop rdi'', ''  pop rax'', ''  add rax, rdi'', ''  push rax'', ''  pop rax'', ''  ret'']"
proof -
  have sp: "isspace CHR '' ''" by (simp add: isspace_def)
  have 1: "ws_equiv ''1+2'' '' 1+2''"
    using ws_equiv.space [OF sp, of "[]" "''1+2''"] by simp
  have 2: "ws_equiv '' 1+2'' '' 1 +2''"
    using ws_equiv.space [OF sp, of "'' 1''" "''+2''"] by (simp add: isdigit_def)
  have 3: "ws_equiv '' 1 +2'' '' 1 + 2''"
    using ws_equiv.space [OF sp, of "'' 1 +''" "''2''"] by (simp add: isdigit_def)
  have 4: "ws_equiv '' 1 + 2'' '' 1 +  2''"
    using ws_equiv.space [OF sp, of "'' 1 + ''" "''2''"] by (simp add: isdigit_def)
  have 5: "ws_equiv '' 1 +  2'' '' 1 +  2 ''"
    using ws_equiv.space [OF sp, of "'' 1 +  2''" "[]"] by simp
  have w: "ws_equiv ''1+2'' '' 1 +  2 ''"
    using 1 2 3 4 5 by (blast intro: ws_equiv.chain)
  have t1: "tokenize ''1+2'' =
     Inr [\<lparr>kind = TK_NUM, val = 1, str = ''1+2''\<rparr>, \<lparr>kind = TK_RESERVED, val = 0, str = ''+2''\<rparr>,
          \<lparr>kind = TK_NUM, val = 2, str = ''2''\<rparr>, \<lparr>kind = TK_EOF, val = 0, str = []\<rparr>]"
    by (simp add: lex_eval)
  have t2: "tokenize '' 1 +  2 '' =
     Inr [\<lparr>kind = TK_NUM, val = 1, str = ''1 +  2 ''\<rparr>, \<lparr>kind = TK_RESERVED, val = 0, str = ''+  2 ''\<rparr>,
          \<lparr>kind = TK_NUM, val = 2, str = ''2 ''\<rparr>, \<lparr>kind = TK_EOF, val = 0, str = []\<rparr>]"
    by (simp add: lex_eval)
  have o: "out (main [''9cc'', ''1+2'']) =
     [''.intel_syntax noprefix'', ''.global main'', ''main:'', ''  push 1'', ''  push 2'',
      ''  pop rdi'', ''  pop rax'', ''  add rax, rdi'', ''  push rax'', ''  pop rax'', ''  ret'']"
    by (simp add: main_def lex_eval parse_eval gen_eval)
  from whitespace_insignificant [OF w, of "''9cc''"] w t1 t2 o
  show ?thesis by simp
qed

end
